theory Spec2Isabelle
  imports Main
begin

section \<open>The connector: a two-relay console messenger over one TCP connection\<close>

text \<open>
  The development embeds \<^verbatim>\<open>connector.cpp\<close>.  The program has three threads
  (\<^verbatim>\<open>main\<close>, \<^verbatim>\<open>recv_loop\<close>, \<^verbatim>\<open>send_loop\<close>) and a signal handler, all sharing the
  atomic flag \<^verbatim>\<open>running\<close> and the descriptor \<^verbatim>\<open>conn_fd\<close>.  Each of them is a step
  function on one program state; a step is one system call together with the
  thread-local statements that follow it up to the next system call or flag read.
  An execution is a schedule: a list naming who moves next.  A step that is not
  enabled (a blocked call, a finished thread) leaves the state as it is.

  The operating system is part of the state: the bytes and errors the socket will
  deliver, what the kernel will accept on each \<^verbatim>\<open>send\<close>, and the lines the console
  will supply.  An empty queue is a call that blocks.  A socket that has been shut down
  answers \<^verbatim>\<open>recv\<close> with 0 and \<^verbatim>\<open>send\<close> with \<^verbatim>\<open>EPIPE\<close>; a closed descriptor answers both with
  \<^verbatim>\<open>EBADF\<close>.  SIGINT is the only signal modelled, and only once \<^verbatim>\<open>main\<close> has installed
  its handler.
\<close>

subsection \<open>Operating-system interface\<close>

type_synonym errno = int

definition EINTR :: errno where "EINTR = 4"
definition EBADF :: errno where "EBADF = 9"
definition EPIPE :: errno where "EPIPE = 32"
definition ECONNRESET :: errno where "ECONNRESET = 104"

abbreviation NUL :: char where "NUL \<equiv> CHR 0x00"
abbreviation newline :: char where "newline \<equiv> CHR 0x0A"

text \<open>The connected socket \<^verbatim>\<open>conn_fd\<close>: open, shut down in both directions
  (\<^verbatim>\<open>shutdown(fd, SHUT_RDWR)\<close>), or closed.\<close>

datatype fd_state = Fd_open | Fd_shut | Fd_closed

text \<open>What the next \<^verbatim>\<open>recv\<close> on the open socket meets: bytes waiting in the
  kernel, the peer's orderly close, or a failure with its \<^verbatim>\<open>errno\<close>.\<close>

datatype rx = Rx_data string | Rx_eof | Rx_err errno

text \<open>What the next \<^verbatim>\<open>send\<close> on the open socket meets: room for so many bytes,
  or a failure.\<close>

datatype tx = Tx_accept nat | Tx_err errno

text \<open>What the next \<^verbatim>\<open>std::getline(cin, line)\<close> meets.\<close>

datatype cin_ev = Line string | Eof

text \<open>\<^verbatim>\<open>recv(fd, buf, len, 0)\<close>: the return value, the bytes stored at \<^verbatim>\<open>buf\<close>, and
  \<^verbatim>\<open>errno\<close>; \<open>None\<close> while the call blocks.  At most \<open>len\<close> bytes are taken; what
  does not fit stays queued.\<close>

definition sys_recv :: "fd_state \<Rightarrow> nat \<Rightarrow> rx list \<Rightarrow> ((int \<times> string \<times> errno) \<times> rx list) option" where
  "sys_recv fd len q =
     (case fd of
        Fd_closed \<Rightarrow> Some ((- 1, [], EBADF), q)
      | Fd_shut \<Rightarrow> Some ((0, [], 0), q)
      | Fd_open \<Rightarrow>
          (case q of
             [] \<Rightarrow> None
           | Rx_data bs # q' \<Rightarrow>
               Some ((int (length (take len bs)), take len bs, 0),
                     (if drop len bs = [] then q' else Rx_data (drop len bs) # q'))
           | Rx_eof # q' \<Rightarrow> Some ((0, [], 0), q)
           | Rx_err e # q' \<Rightarrow> Some ((- 1, [], e), q')))"

text \<open>\<^verbatim>\<open>send(fd, data, len, 0)\<close> with \<open>data\<close> the \<open>len\<close> bytes offered: the return
  value and \<^verbatim>\<open>errno\<close>; \<open>None\<close> while the call blocks.\<close>

definition sys_send :: "fd_state \<Rightarrow> string \<Rightarrow> tx list \<Rightarrow> ((int \<times> errno) \<times> tx list) option" where
  "sys_send fd data q =
     (case fd of
        Fd_closed \<Rightarrow> Some ((- 1, EBADF), q)
      | Fd_shut \<Rightarrow> Some ((- 1, EPIPE), q)
      | Fd_open \<Rightarrow>
          (case q of
             [] \<Rightarrow> None
           | Tx_accept k # q' \<Rightarrow> Some ((int (min k (length data)), 0), q')
           | Tx_err e # q' \<Rightarrow> Some ((- 1, e), q')))"

subsection \<open>Observable events\<close>

datatype actor = A_main | A_recv | A_send | A_sigint

text \<open>The trace records, in order, every system call on the connection with its
  result, every console insertion (\<^verbatim>\<open>cout <<\<close>, \<^verbatim>\<open>cerr <<\<close>, \<^verbatim>\<open>perror\<close>) and every
  flush of \<^verbatim>\<open>cout\<close> with the thread that made it, and the joins.  \<^verbatim>\<open>Sys_recv len n data e\<close>
  is a \<^verbatim>\<open>recv\<close> that asked for \<open>len\<close> bytes and returned \<open>n\<close>, storing \<open>data\<close>, with
  \<^verbatim>\<open>errno\<close> \<open>e\<close>; \<^verbatim>\<open>Sys_send offered n e\<close> is a \<^verbatim>\<open>send\<close> of the bytes \<open>offered\<close> that
  returned \<open>n\<close> with \<^verbatim>\<open>errno\<close> \<open>e\<close>.\<close>

datatype ev =
    Sys_recv nat int string errno
  | Sys_send string int errno
  | Got_line string
  | Got_eof
  | Sys_shutdown
  | Sys_close
  | Joined actor
  | Cout actor string
  | Cout_flush actor
  | Cerr actor string
  | Perror actor string
  | Gai_error int

subsection \<open>Program state\<close>

text \<open>Where each thread stands.  The sending relay carries its locals \<^verbatim>\<open>out\<close>,
  \<^verbatim>\<open>sent\<close> and \<^verbatim>\<open>to_send\<close> while it is inside the inner loop.\<close>

datatype rpc = R_unborn | R_head | R_recv | R_done

datatype spc = S_unborn | S_head | S_getline | S_sending string nat nat | S_done

datatype mpc =
    M_spawn_r | M_spawn_s | M_poll | M_shutdown | M_close | M_join_s | M_join_r
  | M_exited int

record sys =
  running :: bool
  conn :: fd_state
  rxq :: "rx list"
  txq :: "tx list"
  wire :: string
  cin :: "cin_ev list"
  trace :: "ev list"
  main_pc :: mpc
  recv_pc :: rpc
  send_pc :: spc
  rbuf :: string
  username :: string

definition emit :: "ev list \<Rightarrow> sys \<Rightarrow> sys" where
  "emit es s = s\<lparr>trace := trace s @ es\<rparr>"

text \<open>\<^verbatim>\<open>running.store(v)\<close>.\<close>

definition running_store :: "bool \<Rightarrow> sys \<Rightarrow> sys" where
  "running_store v s = s\<lparr>running := v\<rparr>"

subsection \<open>The inbound relay, \<^verbatim>\<open>recv_loop\<close>\<close>

definition BUF :: nat where "BUF = 1024"

text \<open>\<^verbatim>\<open>cout << buf.data()\<close> prints a \<^verbatim>\<open>char*\<close>: the bytes up to the first NUL.\<close>

definition c_str :: "string \<Rightarrow> string" where
  "c_str buf = takeWhile (\<lambda>c. c \<noteq> NUL) buf"

text \<open>The body of the loop after \<^verbatim>\<open>recv\<close> has returned \<open>n\<close>, having stored \<open>data\<close>
  at the start of the buffer, with \<^verbatim>\<open>errno\<close> \<open>e\<close>.  The writes and reads \<^verbatim>\<open>buf[n]\<close> and
  \<^verbatim>\<open>buf[n-1]\<close> are list update and lookup; that the index is inside the buffer in every
  execution is part of the invariant \<open>recv_inv\<close> below (the buffer keeps its \<open>BUF\<close>
  bytes and no chunk is longer than \<open>BUF - 1\<close>).\<close>

definition recv_handle :: "int \<Rightarrow> string \<Rightarrow> errno \<Rightarrow> sys \<Rightarrow> sys" where
  "recv_handle n data e s =
     (if n > 0 then
        (let buf1 = data @ drop (length data) (rbuf s);
             buf2 = buf1[nat n := NUL]
         in emit ([Cout A_recv ''[remote] '', Cout A_recv (c_str buf2)]
                  @ (if buf2 ! (nat n - 1) \<noteq> newline then [Cout A_recv [newline]] else [])
                  @ [Cout_flush A_recv])
              (s\<lparr>rbuf := buf2, recv_pc := R_head\<rparr>))
      else if n = 0 then
        running_store False
          (emit [Cerr A_recv ''Connection closed by peer'', Cerr A_recv [newline]] s)
          \<lparr>recv_pc := R_done\<rparr>
      else if e = EINTR then s\<lparr>recv_pc := R_head\<rparr>
      else running_store False (emit [Perror A_recv ''recv''] s) \<lparr>recv_pc := R_done\<rparr>)"

definition recv_step :: "sys \<Rightarrow> sys option" where
  "recv_step s =
     (case recv_pc s of
        R_head \<Rightarrow> Some (if running s then s\<lparr>recv_pc := R_recv\<rparr> else s\<lparr>recv_pc := R_done\<rparr>)
      | R_recv \<Rightarrow>
          (case sys_recv (conn s) (BUF - 1) (rxq s) of
             None \<Rightarrow> None
           | Some ((n, data, e), q') \<Rightarrow>
               Some (recv_handle n data e
                       (emit [Sys_recv (BUF - 1) n data e] (s\<lparr>rxq := q'\<rparr>))))
      | _ \<Rightarrow> None)"

subsection \<open>The outbound relay, \<^verbatim>\<open>send_loop\<close>\<close>

text \<open>\<^verbatim>\<open>string out = username + ": " + line + "\n"\<close>.\<close>

definition wire_message :: "string \<Rightarrow> string \<Rightarrow> string" where
  "wire_message u line = u @ '': '' @ line @ [newline]"

text \<open>\<^verbatim>\<open>while (to_send > 0)\<close>: stay in the inner loop or go back to the head of the
  outer one.\<close>

definition send_while :: "string \<Rightarrow> nat \<Rightarrow> nat \<Rightarrow> spc" where
  "send_while out sent to_send = (if to_send > 0 then S_sending out sent to_send else S_head)"

text \<open>The body of the inner loop after \<^verbatim>\<open>send\<close> has returned \<open>n\<close> with \<^verbatim>\<open>errno\<close> \<open>e\<close>;
  \<open>offered\<close> are the bytes at \<^verbatim>\<open>data + sent\<close>.  The counters are natural numbers:
  \<^verbatim>\<open>send\<close> never returns more than it was offered, so \<^verbatim>\<open>to_send -= n\<close> does not wrap.\<close>

definition send_handle :: "string \<Rightarrow> nat \<Rightarrow> nat \<Rightarrow> string \<Rightarrow> int \<Rightarrow> errno \<Rightarrow> sys \<Rightarrow> sys" where
  "send_handle out sent to_send offered n e s =
     (if n < 0 then
        (if e = EINTR then s\<lparr>send_pc := send_while out sent to_send\<rparr>
         else running_store False (emit [Perror A_send ''send''] s) \<lparr>send_pc := S_done\<rparr>)
      else s\<lparr>wire := wire s @ take (nat n) offered,
             send_pc := send_while out (sent + nat n) (to_send - nat n)\<rparr>)"

definition send_step :: "sys \<Rightarrow> sys option" where
  "send_step s =
     (case send_pc s of
        S_head \<Rightarrow>
          Some (if running s then s\<lparr>send_pc := S_getline\<rparr>
                else running_store False s \<lparr>send_pc := S_done\<rparr>)
      | S_getline \<Rightarrow>
          (case cin s of
             [] \<Rightarrow> None
           | Eof # q \<Rightarrow> Some (running_store False (emit [Got_eof] s) \<lparr>send_pc := S_done\<rparr>)
           | Line l # q \<Rightarrow>
               (let out = wire_message (username s) l
                in Some (emit [Got_line l,
                               Cout A_send ''[you] '', Cout A_send (username s),
                               Cout A_send '': '', Cout A_send l,
                               Cout A_send [newline], Cout_flush A_send]
                           (s\<lparr>cin := q, send_pc := send_while out 0 (length out)\<rparr>))))
      | S_sending out sent to_send \<Rightarrow>
          (let offered = take to_send (drop sent out) in
           case sys_send (conn s) offered (txq s) of
             None \<Rightarrow> None
           | Some ((n, e), q') \<Rightarrow>
               Some (send_handle out sent to_send offered n e
                       (emit [Sys_send offered n e] (s\<lparr>txq := q'\<rparr>))))
      | _ \<Rightarrow> None)"

subsection \<open>The signal handler\<close>

definition handle_sigint :: "sys \<Rightarrow> sys" where
  "handle_sigint s = running_store False s"

subsection \<open>\<^verbatim>\<open>main\<close>: establishing the connection\<close>

text \<open>The results of the system calls of the establishment phase.  \<open>client_tries\<close>
  lists, for each address \<^verbatim>\<open>getaddrinfo\<close> returned to the client, what \<^verbatim>\<open>socket\<close>
  and \<^verbatim>\<open>connect\<close> return for it.\<close>

record net_env =
  gai_rc :: int
  socket_rc :: int
  bind_rc :: int
  listen_rc :: int
  accept_rc :: int
  client_tries :: "(int \<times> int) list"

definition create_server_socket :: "net_env \<Rightarrow> int \<times> ev list" where
  "create_server_socket env =
     (if gai_rc env \<noteq> 0 then (- 1, [Gai_error (gai_rc env)])
      else if socket_rc env < 0 then (- 1, [Perror A_main ''socket''])
      else if bind_rc env \<noteq> 0 then (- 1, [Perror A_main ''bind''])
      else if listen_rc env \<noteq> 0 then (- 1, [Perror A_main ''listen''])
      else (socket_rc env, []))"

text \<open>The loop over the candidate addresses: the first one whose socket is
  created and connects.\<close>

fun connect_first :: "(int \<times> int) list \<Rightarrow> int" where
  "connect_first [] = - 1"
| "connect_first ((sfd, rc) # rp) =
     (if sfd = - 1 then connect_first rp
      else if rc = 0 then sfd
      else connect_first rp)"

definition create_client_socket :: "net_env \<Rightarrow> int \<times> ev list" where
  "create_client_socket env =
     (if gai_rc env \<noteq> 0 then (- 1, [Gai_error (gai_rc env)])
      else (let sfd = connect_first (client_tries env)
            in (sfd, if sfd = - 1 then [Perror A_main ''connect''] else [])))"

text \<open>\<^verbatim>\<open>argv[0]\<close> and the arguments after it; \<^verbatim>\<open>argc\<close> is one more than the number of
  arguments.\<close>

record invocation =
  prog :: string
  args :: "string list"

definition endl :: "actor \<Rightarrow> ev list" where
  "endl a = [Cout a [newline], Cout_flush a]"

text \<open>\<^verbatim>\<open>main\<close> up to the creation of the threads: the exit code when it returns
  early, or the display name of the established session; and what it printed.
  The two branches of \<^verbatim>\<open>if (string(argv[1]) == "--listen")\<close> are \<open>main_listen\<close> and
  \<open>main_dial\<close>, each given the arguments after \<^verbatim>\<open>argv[1]\<close>.\<close>

definition usage :: "string \<Rightarrow> ev list" where
  "usage argv0 =
     [Cerr A_main ''Usage:'', Cerr A_main [newline],
      Cerr A_main ''  As server: '', Cerr A_main argv0,
      Cerr A_main '' --listen <port>'', Cerr A_main [newline],
      Cerr A_main ''  As client: '', Cerr A_main argv0,
      Cerr A_main '' <host> <port>'', Cerr A_main [newline]]"

definition main_listen :: "string list \<Rightarrow> net_env \<Rightarrow> (int + string) \<times> ev list" where
  "main_listen rest env =
     (case rest of
        [] \<Rightarrow> (Inl 1, [Cerr A_main ''Please specify port to listen on'', Cerr A_main [newline]])
      | port # rest2 \<Rightarrow>
          (let uname = (case rest2 of [] \<Rightarrow> ''server'' | a3 # _ \<Rightarrow> a3);
               srv = create_server_socket env
           in if fst srv < 0 then (Inl 1, snd srv)
              else if accept_rc env < 0 then
                (Inl 1, snd srv @ [Cout A_main ''Listening on port '', Cout A_main port,
                                   Cout A_main '' ... waiting for a connection'']
                        @ endl A_main @ [Perror A_main ''accept''])
              else
                (Inr uname, snd srv @ [Cout A_main ''Listening on port '', Cout A_main port,
                                       Cout A_main '' ... waiting for a connection'']
                            @ endl A_main @ [Cout A_main ''Client connected''] @ endl A_main)))"

definition main_dial :: "string \<Rightarrow> string list \<Rightarrow> net_env \<Rightarrow> (int + string) \<times> ev list" where
  "main_dial host rest env =
     (case rest of
        [] \<Rightarrow> (Inl 1, [Cerr A_main ''Please specify host and port'', Cerr A_main [newline]])
      | port # rest2 \<Rightarrow>
          (let uname = (case rest2 of [] \<Rightarrow> ''host'' | a3 # _ \<Rightarrow> a3);
               fd = create_client_socket env
           in if fst fd < 0 then (Inl 1, snd fd)
              else (Inr uname,
                    snd fd @ [Cout A_main ''Connected to '', Cout A_main host, Cout A_main '':'',
                              Cout A_main port] @ endl A_main)))"

definition main_establish :: "invocation \<Rightarrow> net_env \<Rightarrow> (int + string) \<times> ev list" where
  "main_establish iv env =
     (case args iv of
        [] \<Rightarrow> (Inl 1, usage (prog iv))
      | a1 # rest \<Rightarrow>
          (if a1 = ''--listen'' then main_listen rest env else main_dial a1 rest env))"

text \<open>The state when \<^verbatim>\<open>main\<close> has passed the establishment phase: it has either
  returned, or holds the connection and is about to create the two threads.  The
  flag starts true; the receive buffer is \<^verbatim>\<open>vector<char> buf(BUF)\<close>, all zero.\<close>

definition start :: "invocation \<Rightarrow> net_env \<Rightarrow> rx list \<Rightarrow> tx list \<Rightarrow> cin_ev list \<Rightarrow> sys" where
  "start iv env rx0 tx0 cin0 =
     (let (r, es) = main_establish iv env in
      \<lparr>running = True,
       conn = (case r of Inl _ \<Rightarrow> Fd_closed | Inr _ \<Rightarrow> Fd_open),
       rxq = rx0, txq = tx0, wire = [], cin = cin0, trace = es,
       main_pc = (case r of Inl c \<Rightarrow> M_exited c | Inr _ \<Rightarrow> M_spawn_r),
       recv_pc = R_unborn, send_pc = S_unborn,
       rbuf = replicate BUF NUL,
       username = (case r of Inl _ \<Rightarrow> [] | Inr u \<Rightarrow> u)\<rparr>)"

subsection \<open>\<^verbatim>\<open>main\<close>: supervising the session\<close>

definition main_step :: "sys \<Rightarrow> sys option" where
  "main_step s =
     (case main_pc s of
        M_spawn_r \<Rightarrow> Some (s\<lparr>recv_pc := R_head, main_pc := M_spawn_s\<rparr>)
      | M_spawn_s \<Rightarrow> Some (s\<lparr>send_pc := S_head, main_pc := M_poll\<rparr>)
      | M_poll \<Rightarrow> Some (if running s then s else s\<lparr>main_pc := M_shutdown\<rparr>)
      | M_shutdown \<Rightarrow>
          Some (emit [Sys_shutdown]
                  (s\<lparr>conn := (case conn s of Fd_open \<Rightarrow> Fd_shut | c \<Rightarrow> c), main_pc := M_close\<rparr>))
      | M_close \<Rightarrow> Some (emit [Sys_close] (s\<lparr>conn := Fd_closed, main_pc := M_join_s\<rparr>))
      | M_join_s \<Rightarrow>
          (if send_pc s = S_done then Some (emit [Joined A_send] (s\<lparr>main_pc := M_join_r\<rparr>))
           else None)
      | M_join_r \<Rightarrow>
          (if recv_pc s = R_done
           then Some (emit ([Joined A_recv, Cout A_main ''Exiting.''] @ endl A_main)
                        (s\<lparr>main_pc := M_exited 0\<rparr>))
           else None)
      | M_exited c \<Rightarrow> None)"

subsection \<open>Executions\<close>

definition sigint_step :: "sys \<Rightarrow> sys option" where
  "sigint_step s = (case main_pc s of M_exited c \<Rightarrow> None | _ \<Rightarrow> Some (handle_sigint s))"

definition step :: "actor \<Rightarrow> sys \<Rightarrow> sys option" where
  "step a s =
     (case a of
        A_main \<Rightarrow> main_step s
      | A_recv \<Rightarrow> recv_step s
      | A_send \<Rightarrow> send_step s
      | A_sigint \<Rightarrow> sigint_step s)"

definition move :: "actor \<Rightarrow> sys \<Rightarrow> sys" where
  "move a s = (case step a s of None \<Rightarrow> s | Some s' \<Rightarrow> s')"

primrec exec :: "actor list \<Rightarrow> sys \<Rightarrow> sys" where
  "exec [] s = s"
| "exec (a # sched) s = exec sched (move a s)"

subsection \<open>Reading the trace\<close>

text \<open>What one thread put on \<^verbatim>\<open>cout\<close>: its insertions and flushes in order, and the
  text alone.\<close>

definition cout_events :: "actor \<Rightarrow> ev list \<Rightarrow> ev list" where
  "cout_events a tr =
     filter (\<lambda>e. case e of Cout b t \<Rightarrow> b = a | Cout_flush b \<Rightarrow> b = a | _ \<Rightarrow> False) tr"

definition cout_text :: "actor \<Rightarrow> ev list \<Rightarrow> string" where
  "cout_text a tr =
     concat (map (\<lambda>e. case e of Cout b t \<Rightarrow> (if b = a then t else []) | _ \<Rightarrow> []) tr)"

text \<open>The lines \<^verbatim>\<open>getline\<close> returned, the calls of \<^verbatim>\<open>recv\<close> and of \<^verbatim>\<open>send\<close>, the
  lengths \<^verbatim>\<open>recv\<close> was asked for, and the chunks it delivered (the reads with
  \<open>n > 0\<close>).\<close>

definition lines_read :: "ev list \<Rightarrow> string list" where
  "lines_read tr = concat (map (\<lambda>e. case e of Got_line l \<Rightarrow> [l] | _ \<Rightarrow> []) tr)"

definition recv_calls :: "ev list \<Rightarrow> ev list" where
  "recv_calls tr = filter (\<lambda>e. case e of Sys_recv len n d e \<Rightarrow> True | _ \<Rightarrow> False) tr"

definition send_calls :: "ev list \<Rightarrow> ev list" where
  "send_calls tr = filter (\<lambda>e. case e of Sys_send d n e \<Rightarrow> True | _ \<Rightarrow> False) tr"

definition recv_requests :: "ev list \<Rightarrow> nat list" where
  "recv_requests tr = concat (map (\<lambda>e. case e of Sys_recv len n d e \<Rightarrow> [len] | _ \<Rightarrow> []) tr)"

definition chunks_received :: "ev list \<Rightarrow> string list" where
  "chunks_received tr =
     concat (map (\<lambda>e. case e of Sys_recv len n d e \<Rightarrow> (if n > 0 then [d] else []) | _ \<Rightarrow> []) tr)"

text \<open>The calls on the connection, and the joins, in order.\<close>

definition conn_calls :: "ev list \<Rightarrow> ev list" where
  "conn_calls tr =
     filter (\<lambda>e. case e of Sys_recv len n d er \<Rightarrow> True | Sys_send d n er \<Rightarrow> True
                  | Sys_shutdown \<Rightarrow> True | Sys_close \<Rightarrow> True | Joined a \<Rightarrow> True | _ \<Rightarrow> False) tr"

text \<open>The close of the connection and the joins, in order.\<close>

definition close_joins :: "ev list \<Rightarrow> ev list" where
  "close_joins tr = filter (\<lambda>e. case e of Sys_close \<Rightarrow> True | Joined a \<Rightarrow> True | _ \<Rightarrow> False) tr"

text \<open>The calls of \<^verbatim>\<open>send\<close> that failed with an \<^verbatim>\<open>errno\<close> other than \<^verbatim>\<open>EINTR\<close>.\<close>

definition send_error_calls :: "ev list \<Rightarrow> ev list" where
  "send_error_calls tr =
     filter (\<lambda>e. case e of Sys_send d n er \<Rightarrow> n < 0 \<and> er \<noteq> EINTR | _ \<Rightarrow> False) tr"

text \<open>The console messages that surface an error of a relay.\<close>

definition send_failed :: "ev list \<Rightarrow> bool" where
  "send_failed tr = (Perror A_send ''send'' \<in> set tr)"

definition recv_failed :: "ev list \<Rightarrow> bool" where
  "recv_failed tr = (Perror A_recv ''recv'' \<in> set tr)"

subsection \<open>Sample sessions\<close>

text \<open>A dialer started as \<^verbatim>\<open>connector 127.0.0.1 9001 bob\<close>, a listener started as
  \<^verbatim>\<open>connector --listen 9001\<close>, and a network on which every call of the establishment
  phase succeeds.\<close>

definition bob_dials :: invocation where
  "bob_dials = \<lparr>prog = ''connector'', args = [''127.0.0.1'', ''9001'', ''bob'']\<rparr>"

definition server_listens :: invocation where
  "server_listens = \<lparr>prog = ''connector'', args = [''--listen'', ''9001'']\<rparr>"

definition net_up :: net_env where
  "net_up = \<lparr>gai_rc = 0, socket_rc = 3, bind_rc = 0, listen_rc = 0, accept_rc = 4,
             client_tries = [(3, 0)]\<rparr>"

text \<open>Bob's session in which both relays start, the outbound relay goes to wait for a
  line, the peer closes, the inbound relay reads the close, and \<^verbatim>\<open>main\<close> sees the flag
  cleared, shuts the socket down and closes it.  The console's future is a parameter.\<close>

definition peer_closes_first :: "cin_ev list \<Rightarrow> sys" where
  "peer_closes_first console =
     exec [A_main, A_main, A_recv, A_send, A_recv, A_main, A_main, A_main]
       (start bob_dials net_up [Rx_eof] [] console)"

text \<open>Bob's session in which SIGINT arrives while the inbound relay is inside \<^verbatim>\<open>recv\<close>,
  the call fails with \<^verbatim>\<open>EINTR\<close>, and the relay moves twice more.\<close>

definition sigint_during_recv :: sys where
  "sigint_during_recv =
     exec [A_main, A_main, A_recv, A_sigint, A_recv, A_recv]
       (start bob_dials net_up [Rx_err EINTR, Rx_data ''hi''] [] [])"

text \<open>Bob's session at a moment when the inbound relay is inside \<^verbatim>\<open>recv\<close> and the
  outbound relay has sent 3 of the 8 bytes of its message, and the next call of each
  will fail with \<^verbatim>\<open>EINTR\<close>.\<close>

definition both_interrupted :: sys where
  "both_interrupted =
     exec [A_main, A_main, A_recv, A_send, A_send, A_send]
       (start bob_dials net_up [Rx_err EINTR, Rx_data ''hi'']
          [Tx_accept 3, Tx_err EINTR, Tx_accept 100] [Line ''yo''])"

text \<open>Bob's session at a moment when the outbound relay has sent 3 of the 8 bytes of its
  message and the next \<^verbatim>\<open>send\<close> will fail with \<^verbatim>\<open>ECONNRESET\<close>; a second line waits on the
  console.\<close>

definition write_failing :: sys where
  "write_failing =
     exec [A_main, A_main, A_send, A_send, A_send]
       (start bob_dials net_up [] [Tx_accept 3, Tx_err ECONNRESET, Tx_accept 100]
          [Line ''yo'', Line ''again''])"

subsection \<open>Establishment failures, as the specification lists them\<close>

text \<open>Following the specification's list, not the code: missing arguments (no argument,
  or no port), and for a listener a failure of resolution, bind, listen or accept, for
  a dialer a failure of resolution or of every connection attempt.\<close>

definition establishment_failure :: "invocation \<Rightarrow> net_env \<Rightarrow> bool" where
  "establishment_failure iv env =
     (case args iv of
        [] \<Rightarrow> True
      | [a] \<Rightarrow> True
      | a # port # rest \<Rightarrow>
          (if a = ''--listen''
           then gai_rc env \<noteq> 0 \<or> bind_rc env \<noteq> 0 \<or> listen_rc env \<noteq> 0 \<or> accept_rc env < 0
           else gai_rc env \<noteq> 0 \<or> list_all (\<lambda>(sfd, rc). sfd = - 1 \<or> rc \<noteq> 0) (client_tries env)))"

section \<open>Invariants of every execution\<close>

text \<open>Which thread an event belongs to.\<close>

definition owner :: "ev \<Rightarrow> actor" where
  "owner e =
     (case e of
        Sys_recv len n d er \<Rightarrow> A_recv
      | Sys_send d n er \<Rightarrow> A_send
      | Got_line l \<Rightarrow> A_send
      | Got_eof \<Rightarrow> A_send
      | Sys_shutdown \<Rightarrow> A_main
      | Sys_close \<Rightarrow> A_main
      | Joined a \<Rightarrow> A_main
      | Cout a t \<Rightarrow> a
      | Cout_flush a \<Rightarrow> a
      | Cerr a t \<Rightarrow> a
      | Perror a t \<Rightarrow> a
      | Gai_error r \<Rightarrow> A_main)"

text \<open>What holds of the inbound relay's buffer, requests and output in every state.\<close>

definition recv_inv :: "sys \<Rightarrow> bool" where
  "recv_inv s \<longleftrightarrow>
     length (rbuf s) = BUF \<and>
     list_all (\<lambda>len. len = BUF - 1) (recv_requests (trace s)) \<and>
     list_all (\<lambda>d. length d \<le> BUF - 1) (chunks_received (trace s)) \<and>
     cout_events A_recv (trace s) =
       concat (map (\<lambda>d. [Cout A_recv ''[remote] '', Cout A_recv (takeWhile (\<lambda>c. c \<noteq> NUL) d)]
                         @ (if last d \<noteq> newline then [Cout A_recv [newline]] else [])
                         @ [Cout_flush A_recv])
                   (chunks_received (trace s))) \<and>
     cout_text A_recv (trace s) =
       concat (map (\<lambda>d. ''[remote] '' @ takeWhile (\<lambda>c. c \<noteq> NUL) d
                         @ (if last d \<noteq> newline then [newline] else []))
                   (chunks_received (trace s)))"

text \<open>What holds of the outbound relay's echo and of the bytes on the wire in every
  state, by where the relay stands.\<close>

definition send_inv :: "sys \<Rightarrow> bool" where
  "send_inv s \<longleftrightarrow>
     (main_pc s = M_spawn_r \<or> main_pc s = M_spawn_s \<longrightarrow> send_pc s = S_unborn) \<and>
     cout_events A_send (trace s) =
       concat (map (\<lambda>l. [Cout A_send ''[you] '', Cout A_send (username s), Cout A_send '': '',
                          Cout A_send l, Cout A_send [newline], Cout_flush A_send])
                   (lines_read (trace s))) \<and>
     cout_text A_send (trace s) =
       concat (map (\<lambda>l. ''[you] '' @ username s @ '': '' @ l @ [newline]) (lines_read (trace s))) \<and>
     (send_pc s \<noteq> S_done \<longrightarrow> \<not> send_failed (trace s)) \<and>
     (case send_pc s of
        S_sending out sent to_send \<Rightarrow>
          lines_read (trace s) \<noteq> [] \<and>
          out = wire_message (username s) (last (lines_read (trace s))) \<and>
          wire s = concat (map (wire_message (username s)) (butlast (lines_read (trace s))))
                   @ take sent out \<and>
          sent + to_send = length out \<and> 0 < to_send
      | S_done \<Rightarrow>
          (if send_failed (trace s) then
             \<not> running s \<and> lines_read (trace s) \<noteq> [] \<and>
             (\<exists>k < length (wire_message (username s) (last (lines_read (trace s)))).
                wire s = concat (map (wire_message (username s)) (butlast (lines_read (trace s))))
                         @ take k (wire_message (username s) (last (lines_read (trace s))))) \<and>
             send_calls (trace s) \<noteq> [] \<and>
             (\<exists>off n e. last (send_calls (trace s)) = Sys_send off n e \<and> n < 0 \<and> e \<noteq> EINTR)
           else wire s = concat (map (wire_message (username s)) (lines_read (trace s))))
      | _ \<Rightarrow> wire s = concat (map (wire_message (username s)) (lines_read (trace s))))"

text \<open>What holds of an established session by where \<^verbatim>\<open>main\<close> stands.\<close>

definition session_inv :: "sys \<Rightarrow> bool" where
  "session_inv s \<longleftrightarrow>
     (case main_pc s of
        M_spawn_r \<Rightarrow> recv_pc s = R_unborn \<and> send_pc s = S_unborn \<and> conn s = Fd_open \<and>
                     close_joins (trace s) = []
      | M_spawn_s \<Rightarrow> send_pc s = S_unborn \<and> conn s = Fd_open \<and> close_joins (trace s) = []
      | M_poll \<Rightarrow> conn s = Fd_open \<and> close_joins (trace s) = []
      | M_shutdown \<Rightarrow> \<not> running s \<and> conn s = Fd_open \<and> close_joins (trace s) = []
      | M_close \<Rightarrow> \<not> running s \<and> conn s = Fd_shut \<and> close_joins (trace s) = []
      | M_join_s \<Rightarrow> \<not> running s \<and> conn s = Fd_closed \<and> close_joins (trace s) = [Sys_close]
      | M_join_r \<Rightarrow> \<not> running s \<and> conn s = Fd_closed \<and>
                    close_joins (trace s) = [Sys_close, Joined A_send] \<and>
                    send_pc s = S_done
      | M_exited c \<Rightarrow> c = 0 \<and> \<not> running s \<and> conn s = Fd_closed \<and>
                      close_joins (trace s) = [Sys_close, Joined A_send, Joined A_recv] \<and>
                      send_pc s = S_done \<and> recv_pc s = R_done)"

text \<open>What holds of the failed calls of \<^verbatim>\<open>send\<close>: none while no error has been printed;
  once one has, the relay has stopped and the one failed call is the last call it made.\<close>

definition fail_inv :: "sys \<Rightarrow> bool" where
  "fail_inv s \<longleftrightarrow>
     (if send_failed (trace s)
      then send_pc s = S_done \<and> send_calls (trace s) \<noteq> [] \<and>
           send_error_calls (trace s) = [last (send_calls (trace s))]
      else send_error_calls (trace s) = [])"

section \<open>Proofs\<close>

lemma exec_append: "exec (xs @ ys) s = exec ys (exec xs s)"
  by (induction xs arbitrary: s) simp_all

lemma server_owner: "list_all (\<lambda>e. owner e = A_main) (snd (create_server_socket env))"
  by (simp add: create_server_socket_def owner_def)

lemma client_owner: "list_all (\<lambda>e. owner e = A_main) (snd (create_client_socket env))"
  by (simp add: create_client_socket_def owner_def Let_def)

lemma listen_owner: "list_all (\<lambda>e. owner e = A_main) (snd (main_listen rest env))"
proof (cases rest)
  case Nil
  then show ?thesis by (simp add: main_listen_def owner_def)
next
  case (Cons port rest2)
  have e: "list_all (\<lambda>e. owner e = A_main) (endl A_main)" by (simp add: endl_def owner_def)
  show ?thesis
    using server_owner[of env] e
    by (simp add: Cons main_listen_def Let_def) (simp add: owner_def)
qed

lemma dial_owner: "list_all (\<lambda>e. owner e = A_main) (snd (main_dial h rest env))"
proof (cases rest)
  case Nil
  then show ?thesis by (simp add: main_dial_def owner_def)
next
  case (Cons port rest2)
  have e: "list_all (\<lambda>e. owner e = A_main) (endl A_main)" by (simp add: endl_def owner_def)
  show ?thesis
    using client_owner[of env] e
    by (simp add: Cons main_dial_def Let_def) (simp add: owner_def)
qed

lemma establish_owner: "list_all (\<lambda>e. owner e = A_main) (snd (main_establish iv env))"
proof (cases "args iv")
  case Nil
  then show ?thesis by (simp add: main_establish_def usage_def owner_def)
next
  case (Cons a1 rest)
  then show ?thesis by (simp add: main_establish_def listen_owner dial_owner)
qed

lemmas trace_defs = cout_events_def cout_text_def lines_read_def recv_calls_def send_calls_def
  recv_requests_def chunks_received_def send_failed_def recv_failed_def

lemma trace_append:
  "cout_events a (xs @ ys) = cout_events a xs @ cout_events a ys"
  "cout_text a (xs @ ys) = cout_text a xs @ cout_text a ys"
  "lines_read (xs @ ys) = lines_read xs @ lines_read ys"
  "recv_calls (xs @ ys) = recv_calls xs @ recv_calls ys"
  "send_calls (xs @ ys) = send_calls xs @ send_calls ys"
  "recv_requests (xs @ ys) = recv_requests xs @ recv_requests ys"
  "chunks_received (xs @ ys) = chunks_received xs @ chunks_received ys"
  "send_failed (xs @ ys) = (send_failed xs \<or> send_failed ys)"
  "recv_failed (xs @ ys) = (recv_failed xs \<or> recv_failed ys)"
  by (auto simp: trace_defs)

lemma not_recv_events:
  assumes "list_all (\<lambda>e. owner e \<noteq> A_recv) es"
  shows "cout_events A_recv es = []" "cout_text A_recv es = []" "recv_calls es = []"
    "recv_requests es = []" "chunks_received es = []" "\<not> recv_failed es"
proof -
  have *: "\<And>e. e \<in> set es \<Longrightarrow> owner e \<noteq> A_recv"
    using assms by (simp add: list_all_iff)
  show "cout_events A_recv es = []"
    unfolding cout_events_def filter_empty_conv
    by (auto dest!: * simp: owner_def split: ev.splits)
  show "cout_text A_recv es = []"
    unfolding cout_text_def concat_eq_Nil_conv
    by (auto dest!: * simp: owner_def split: ev.splits)
  show "recv_calls es = []"
    unfolding recv_calls_def filter_empty_conv
    by (auto dest!: * simp: owner_def split: ev.splits)
  show "recv_requests es = []"
    unfolding recv_requests_def concat_eq_Nil_conv
    by (auto dest!: * simp: owner_def split: ev.splits)
  show "chunks_received es = []"
    unfolding chunks_received_def concat_eq_Nil_conv
    by (auto dest!: * simp: owner_def split: ev.splits)
  show "\<not> recv_failed es"
    unfolding recv_failed_def
    by (auto dest!: * simp: owner_def)
qed

lemma not_send_events:
  assumes "list_all (\<lambda>e. owner e \<noteq> A_send) es"
  shows "cout_events A_send es = []" "cout_text A_send es = []" "send_calls es = []"
    "lines_read es = []" "\<not> send_failed es"
proof -
  have *: "\<And>e. e \<in> set es \<Longrightarrow> owner e \<noteq> A_send"
    using assms by (simp add: list_all_iff)
  show "cout_events A_send es = []"
    unfolding cout_events_def filter_empty_conv
    by (auto dest!: * simp: owner_def split: ev.splits)
  show "cout_text A_send es = []"
    unfolding cout_text_def concat_eq_Nil_conv
    by (auto dest!: * simp: owner_def split: ev.splits)
  show "send_calls es = []"
    unfolding send_calls_def filter_empty_conv
    by (auto dest!: * simp: owner_def split: ev.splits)
  show "lines_read es = []"
    unfolding lines_read_def concat_eq_Nil_conv
    by (auto dest!: * simp: owner_def split: ev.splits)
  show "\<not> send_failed es"
    unfolding send_failed_def
    by (auto dest!: * simp: owner_def)
qed

lemma send_step_frame:
  assumes "send_step s = Some s'"
  shows "rbuf s' = rbuf s" "recv_pc s' = recv_pc s" "main_pc s' = main_pc s" "conn s' = conn s"
    "rxq s' = rxq s" "username s' = username s" "running s' \<Longrightarrow> running s"
    "\<exists>es. trace s' = trace s @ es \<and> list_all (\<lambda>e. owner e = A_send) es"
  using assms
  by (auto simp: send_step_def send_handle_def emit_def running_store_def owner_def Let_def
           split: spc.splits list.splits cin_ev.splits option.splits if_splits)

lemma recv_step_frame:
  assumes "recv_step s = Some s'"
  shows "send_pc s' = send_pc s" "main_pc s' = main_pc s" "conn s' = conn s"
    "txq s' = txq s" "cin s' = cin s" "wire s' = wire s" "username s' = username s"
    "running s' \<Longrightarrow> running s"
    "\<exists>es. trace s' = trace s @ es \<and> list_all (\<lambda>e. owner e = A_recv) es"
  using assms
  by (auto simp: recv_step_def recv_handle_def emit_def running_store_def owner_def Let_def
           split: rpc.splits option.splits if_splits)

lemma main_step_frame:
  assumes "main_step s = Some s'"
  shows "rbuf s' = rbuf s" "running s' = running s" "rxq s' = rxq s"
    "txq s' = txq s" "cin s' = cin s" "wire s' = wire s" "username s' = username s"
    "\<exists>es. trace s' = trace s @ es \<and> list_all (\<lambda>e. owner e = A_main) es"
  using assms
  by (auto simp: main_step_def emit_def endl_def owner_def
           split: mpc.splits if_splits)

lemma sigint_step_frame:
  assumes "sigint_step s = Some s'"
  shows "s' = s\<lparr>running := False\<rparr>"
  using assms
  by (auto simp: sigint_step_def handle_sigint_def running_store_def split: mpc.splits)

lemma sys_send_result:
  assumes "sys_send fd data q = Some ((n, e), q')"
  shows "n < 0 \<or> (0 \<le> n \<and> nat n \<le> length data)"
  using assms
  by (auto simp: sys_send_def split: fd_state.splits list.splits tx.splits)

lemma concat_butlast_last:
  "ls \<noteq> [] \<Longrightarrow> concat (map f (butlast ls)) @ f (last ls) = concat (map f ls)"
  by (induction ls) auto

lemma send_inv_send_step:
  assumes inv: "send_inv s" and st: "send_step s = Some s'"
  shows "send_inv s'"
proof (cases "send_pc s")
  case S_unborn
  with st show ?thesis by (simp add: send_step_def)
next
  case S_done
  with st show ?thesis by (simp add: send_step_def)
next
  case S_head
  with st have "s' = (if running s then s\<lparr>send_pc := S_getline\<rparr>
                      else running_store False s \<lparr>send_pc := S_done\<rparr>)"
    by (simp add: send_step_def)
  with inv S_head show ?thesis
    by (auto simp: send_inv_def running_store_def)
next
  case S_getline
  show ?thesis
  proof (cases "cin s")
    case Nil
    with st S_getline show ?thesis by (simp add: send_step_def)
  next
    case (Cons c q)
    show ?thesis
    proof (cases c)
      case Eof
      with st S_getline Cons have "s' = running_store False (emit [Got_eof] s) \<lparr>send_pc := S_done\<rparr>"
        by (simp add: send_step_def)
      with inv S_getline show ?thesis
        by (simp add: send_inv_def running_store_def emit_def trace_append)
           (simp add: trace_defs)
    next
      case (Line l)
      let ?out = "wire_message (username s) l"
      have len: "0 < length ?out" by (simp add: wire_message_def)
      from st S_getline Cons Line have s': "s' = emit [Got_line l,
                               Cout A_send ''[you] '', Cout A_send (username s),
                               Cout A_send '': '', Cout A_send l,
                               Cout A_send [newline], Cout_flush A_send]
                           (s\<lparr>cin := q, send_pc := S_sending ?out 0 (length ?out)\<rparr>)"
        using len by (simp add: send_step_def Let_def send_while_def)
      from inv S_getline len show ?thesis
        unfolding s'
        by (simp add: send_inv_def emit_def trace_append)
           (simp add: trace_defs)
    qed
  qed
next
  case (S_sending out sent to_send)
  let ?off = "take to_send (drop sent out)"
  from inv S_sending have
    ls: "lines_read (trace s) \<noteq> []" and
    out: "out = wire_message (username s) (last (lines_read (trace s)))" and
    w: "wire s = concat (map (wire_message (username s)) (butlast (lines_read (trace s)))) @ take sent out" and
    sum: "sent + to_send = length out" and pos: "0 < to_send" and
    nf: "\<not> send_failed (trace s)"
    by (simp_all add: send_inv_def)
  from inv have
    ce: "cout_events A_send (trace s) =
       concat (map (\<lambda>l. [Cout A_send ''[you] '', Cout A_send (username s), Cout A_send '': '',
                          Cout A_send l, Cout A_send [newline], Cout_flush A_send])
                   (lines_read (trace s)))" and
    ct: "cout_text A_send (trace s) =
       concat (map (\<lambda>l. ''[you] '' @ username s @ '': '' @ l @ [newline]) (lines_read (trace s)))" and
    mp: "main_pc s \<noteq> M_spawn_r \<and> main_pc s \<noteq> M_spawn_s"
    using S_sending by (auto simp: send_inv_def)
  from st S_sending obtain n e q' where
    ss: "sys_send (conn s) ?off (txq s) = Some ((n, e), q')" and
    s': "s' = send_handle out sent to_send ?off n e (emit [Sys_send ?off n e] (s\<lparr>txq := q'\<rparr>))"
    by (auto simp: send_step_def Let_def split: option.splits)
  have offlen: "length ?off = to_send" using sum by simp
  have tr: "\<And>off. lines_read (trace s @ [Sys_send off n e]) = lines_read (trace s)"
       "\<And>off. cout_events A_send (trace s @ [Sys_send off n e]) = cout_events A_send (trace s)"
       "\<And>off. cout_text A_send (trace s @ [Sys_send off n e]) = cout_text A_send (trace s)"
       "\<And>off. send_failed (trace s @ [Sys_send off n e]) = send_failed (trace s)"
    by (simp_all add: trace_defs)
  consider (eintr) "n < 0" "e = EINTR" | (fail) "n < 0" "e \<noteq> EINTR" | (ok) "0 \<le> n" "nat n \<le> to_send"
    using sys_send_result[OF ss] offlen by auto
  then show ?thesis
  proof cases
    case eintr
    then have "s' = (emit [Sys_send ?off n e] (s\<lparr>txq := q'\<rparr>))\<lparr>send_pc := S_sending out sent to_send\<rparr>"
      using pos by (simp add: s' send_handle_def send_while_def)
    then show ?thesis
      using ls out w sum pos nf ce ct mp
      by (simp add: send_inv_def emit_def tr)
  next
    case fail
    then have s'': "s' = running_store False (emit [Perror A_send ''send'']
                 (emit [Sys_send ?off n e] (s\<lparr>txq := q'\<rparr>))) \<lparr>send_pc := S_done\<rparr>"
      by (simp add: s' send_handle_def)
    have tr2: "\<And>off. lines_read (trace s @ [Sys_send off n e, Perror A_send ''send'']) = lines_read (trace s)"
       "\<And>off. cout_events A_send (trace s @ [Sys_send off n e, Perror A_send ''send'']) = cout_events A_send (trace s)"
       "\<And>off. cout_text A_send (trace s @ [Sys_send off n e, Perror A_send ''send'']) = cout_text A_send (trace s)"
       "\<And>off. send_failed (trace s @ [Sys_send off n e, Perror A_send ''send''])"
       "\<And>off. last (send_calls (trace s @ [Sys_send off n e, Perror A_send ''send''])) = Sys_send off n e"
       "\<And>off. send_calls (trace s @ [Sys_send off n e, Perror A_send ''send'']) \<noteq> []"
      by (simp_all add: trace_defs)
    have k: "sent < length (wire_message (username s) (last (lines_read (trace s))))"
      using sum pos out by simp
    show ?thesis
      unfolding s''
      using ls w fail ce ct mp k out
      by (auto simp: send_inv_def emit_def running_store_def tr2)
  next
    case ok
    have tk: "take sent out @ take (nat n) ?off = take (sent + nat n) out"
      using ok(2) sum by (simp add: take_add)
    from ok have s'': "s' = (emit [Sys_send ?off n e] (s\<lparr>txq := q'\<rparr>))
         \<lparr>wire := wire s @ take (nat n) ?off,
          send_pc := send_while out (sent + nat n) (to_send - nat n)\<rparr>"
      by (simp add: s' send_handle_def emit_def)
    show ?thesis
    proof (cases "to_send - nat n > 0")
      case True
      then show ?thesis
        unfolding s''
        using ls out w sum pos nf ce ct mp ok tk
        by (simp add: send_inv_def emit_def tr send_while_def)
    next
      case False
      with ok sum have full: "sent + nat n = length out" by simp
      have "wire s @ take (nat n) ?off = concat (map (wire_message (username s)) (lines_read (trace s)))"
        using w tk full out concat_butlast_last[OF ls, of "wire_message (username s)"] by simp
      with False show ?thesis
        unfolding s''
        using nf ce ct mp
        by (simp add: send_inv_def emit_def tr send_while_def)
    qed
  qed
qed

lemma owner_neq:
  "list_all (\<lambda>e. owner e = A_main) es \<Longrightarrow> list_all (\<lambda>e. owner e \<noteq> A_send) es"
  "list_all (\<lambda>e. owner e = A_main) es \<Longrightarrow> list_all (\<lambda>e. owner e \<noteq> A_recv) es"
  "list_all (\<lambda>e. owner e = A_recv) es \<Longrightarrow> list_all (\<lambda>e. owner e \<noteq> A_send) es"
  "list_all (\<lambda>e. owner e = A_send) es \<Longrightarrow> list_all (\<lambda>e. owner e \<noteq> A_recv) es"
  by (auto simp: list_all_iff)

lemma send_inv_frame:
  assumes "send_inv s" "send_pc s' = send_pc s"
    "main_pc s' = M_spawn_r \<or> main_pc s' = M_spawn_s \<Longrightarrow> send_pc s = S_unborn"
    "wire s' = wire s" "username s' = username s" "running s' \<Longrightarrow> running s"
    "trace s' = trace s @ es" "list_all (\<lambda>e. owner e \<noteq> A_send) es"
  shows "send_inv s'"
proof -
  note ns = not_send_events[OF assms(8)]
  have tr: "lines_read (trace s') = lines_read (trace s)"
    "cout_events A_send (trace s') = cout_events A_send (trace s)"
    "cout_text A_send (trace s') = cout_text A_send (trace s)"
    "send_calls (trace s') = send_calls (trace s)"
    "send_failed (trace s') = send_failed (trace s)"
    by (simp_all add: assms(7) trace_append ns)
  show ?thesis
    using assms(1,3,6)
    unfolding send_inv_def tr assms(2,4,5)
    by (auto split: spc.splits if_splits)
qed

lemma send_inv_recv_step:
  assumes "send_inv s" "recv_step s = Some s'"
  shows "send_inv s'"
proof -
  note f = recv_step_frame[OF assms(2)]
  from f(9) obtain es where es: "trace s' = trace s @ es" "list_all (\<lambda>e. owner e = A_recv) es"
    by blast
  show ?thesis
    by (rule send_inv_frame[OF assms(1) f(1) _ f(6) f(7) f(8) es(1) owner_neq(3)[OF es(2)]])
       (use assms(1) in \<open>simp add: f(2) send_inv_def\<close>)
qed

lemma send_inv_sigint_step:
  assumes "send_inv s" "sigint_step s = Some s'"
  shows "send_inv s'"
  by (rule send_inv_frame[OF assms(1), where es = "[]"])
     (use assms(1) in \<open>simp_all add: sigint_step_frame[OF assms(2)] send_inv_def\<close>)

lemma send_inv_main_step:
  assumes inv: "send_inv s" and st: "main_step s = Some s'"
  shows "send_inv s'"
proof -
  note f = main_step_frame[OF st]
  from f(8) obtain es where es: "trace s' = trace s @ es" "list_all (\<lambda>e. owner e = A_main) es"
    by blast
  show ?thesis
  proof (cases "main_pc s = M_spawn_s")
    case True
    with st have s': "s' = s\<lparr>send_pc := S_head, main_pc := M_poll\<rparr>"
      by (simp add: main_step_def)
    from inv True have "send_pc s = S_unborn" by (simp add: send_inv_def)
    with inv show ?thesis unfolding s' by (simp add: send_inv_def)
  next
    case False
    with st have pc: "send_pc s' = send_pc s"
      "main_pc s' = M_spawn_r \<or> main_pc s' = M_spawn_s \<Longrightarrow> main_pc s = M_spawn_r"
      by (auto simp: main_step_def emit_def split: mpc.splits if_splits)
    show ?thesis
      by (rule send_inv_frame[OF inv pc(1) _ f(6) f(7) _ es(1) owner_neq(1)[OF es(2)]])
         (use pc(2) inv f(2) in \<open>auto simp: send_inv_def\<close>)
  qed
qed

lemma send_inv_move: "send_inv s \<Longrightarrow> send_inv (move a s)"
  by (cases a; cases "step a s")
     (auto simp: move_def step_def
           intro: send_inv_main_step send_inv_recv_step send_inv_send_step send_inv_sigint_step)

lemma send_inv_exec: "send_inv s \<Longrightarrow> send_inv (exec sched s)"
  by (induction sched arbitrary: s) (simp_all add: send_inv_move)

lemma start_fields:
  "trace (start iv env rx0 tx0 cin0) = snd (main_establish iv env)"
  "rbuf (start iv env rx0 tx0 cin0) = replicate BUF NUL"
  "wire (start iv env rx0 tx0 cin0) = []"
  "recv_pc (start iv env rx0 tx0 cin0) = R_unborn"
  "send_pc (start iv env rx0 tx0 cin0) = S_unborn"
  "running (start iv env rx0 tx0 cin0)"
  "main_pc (start iv env rx0 tx0 cin0) =
     (case fst (main_establish iv env) of Inl c \<Rightarrow> M_exited c | Inr u \<Rightarrow> M_spawn_r)"
  "username (start iv env rx0 tx0 cin0) =
     (case fst (main_establish iv env) of Inl c \<Rightarrow> [] | Inr u \<Rightarrow> u)"
  "conn (start iv env rx0 tx0 cin0) =
     (case fst (main_establish iv env) of Inl c \<Rightarrow> Fd_closed | Inr u \<Rightarrow> Fd_open)"
  "rxq (start iv env rx0 tx0 cin0) = rx0"
  "txq (start iv env rx0 tx0 cin0) = tx0"
  "cin (start iv env rx0 tx0 cin0) = cin0"
  by (simp_all add: start_def split: prod.splits)

lemma send_inv_start: "send_inv (start iv env rx0 tx0 cin0)"
  using not_send_events[OF owner_neq(1)[OF establish_owner[of iv env]]]
  by (simp add: send_inv_def start_fields)

lemma send_inv_reach: "send_inv (exec sched (start iv env rx0 tx0 cin0))"
  by (rule send_inv_exec[OF send_inv_start])

lemma sys_recv_pos:
  assumes "sys_recv fd len q = Some ((n, d, e), q')" "n > 0"
  shows "n = int (length d) \<and> length d \<le> len \<and> d \<noteq> []"
  using assms
  by (auto simp: sys_recv_def split: fd_state.splits list.splits rx.splits if_splits)

lemma c_str_stored:
  assumes "d \<noteq> []" "length d < length buf"
  shows "c_str ((d @ drop (length d) buf)[length d := NUL]) = takeWhile (\<lambda>c. c \<noteq> NUL) d"
    and "((d @ drop (length d) buf)[length d := NUL]) ! (length d - 1) = last d"
    and "length ((d @ drop (length d) buf)[length d := NUL]) = length buf"
proof -
  from assms(2) obtain x r where r: "drop (length d) buf = x # r"
    by (cases "drop (length d) buf") simp_all
  have upd: "(d @ drop (length d) buf)[length d := NUL] = d @ NUL # r"
    unfolding r by (rule list_update_length)
  show "c_str ((d @ drop (length d) buf)[length d := NUL]) = takeWhile (\<lambda>c. c \<noteq> NUL) d"
  proof (cases "\<forall>c\<in>set d. c \<noteq> NUL")
    case True
    then have tw: "takeWhile (\<lambda>c. c \<noteq> NUL) d = d" by simp
    from True have "takeWhile (\<lambda>c. c \<noteq> NUL) (d @ NUL # r) = d @ takeWhile (\<lambda>c. c \<noteq> NUL) (NUL # r)"
      by (intro takeWhile_append2) simp
    then show ?thesis unfolding upd c_str_def tw by simp
  next
    case False
    then have "NUL \<in> set d" by simp
    then have "takeWhile (\<lambda>c. c \<noteq> NUL) (d @ NUL # r) = takeWhile (\<lambda>c. c \<noteq> NUL) d"
      by (rule takeWhile_append1) simp
    then show ?thesis unfolding upd c_str_def .
  qed
  from assms(1) have "(d @ NUL # r) ! (length d - 1) = d ! (length d - 1)"
    by (simp add: nth_append)
  with assms(1) show "((d @ drop (length d) buf)[length d := NUL]) ! (length d - 1) = last d"
    unfolding upd by (simp add: last_conv_nth)
  show "length ((d @ drop (length d) buf)[length d := NUL]) = length buf"
    using assms(2) by simp
qed

lemma recv_inv_recv_step:
  assumes "recv_inv s" "recv_step s = Some s'"
  shows "recv_inv s'"
proof (cases "recv_pc s")
  case R_recv
  from assms(2) R_recv obtain n d e q' where
    sr: "sys_recv (conn s) (BUF - 1) (rxq s) = Some ((n, d, e), q')"
    and s': "s' = recv_handle n d e (emit [Sys_recv (BUF - 1) n d e] (s\<lparr>rxq := q'\<rparr>))"
    by (auto simp: recv_step_def split: option.splits)
  show ?thesis
  proof (cases "n > 0")
    case True
    from sys_recv_pos[OF sr True] have n: "nat n = length d" "d \<noteq> []" "length d < length (rbuf s)"
      "length d \<le> BUF - 1"
      using assms(1) by (auto simp: recv_inv_def BUF_def)
    show ?thesis
      using assms(1) True n c_str_stored[OF n(2) n(3)]
      unfolding s' recv_inv_def
      by (simp add: recv_handle_def emit_def trace_defs Let_def)
  next
    case False
    then show ?thesis
      using assms(1) unfolding s' recv_inv_def
      by (simp add: recv_handle_def emit_def trace_defs running_store_def)
  qed
qed (use assms in \<open>auto simp: recv_step_def recv_inv_def split: if_splits\<close>)


lemma recv_inv_frame:
  assumes "recv_inv s" "rbuf s' = rbuf s" "trace s' = trace s @ es"
    "list_all (\<lambda>e. owner e \<noteq> A_recv) es"
  shows "recv_inv s'"
  using assms(1) not_recv_events[OF assms(4)]
  by (simp add: recv_inv_def assms(2,3) trace_append)

lemma recv_inv_move: "recv_inv s \<Longrightarrow> recv_inv (move a s)"
proof (cases "step a s")
  case None
  assume "recv_inv s"
  with None show ?thesis by (simp add: move_def)
next
  case (Some s')
  assume inv: "recv_inv s"
  have "recv_inv s'"
  proof (cases a)
    case A_main
    with Some have st: "main_step s = Some s'" by (simp add: step_def)
    from main_step_frame(8)[OF st] obtain es where
      es: "trace s' = trace s @ es" "list_all (\<lambda>e. owner e = A_main) es" by blast
    show ?thesis
      by (rule recv_inv_frame[OF inv main_step_frame(1)[OF st] es(1) owner_neq(2)[OF es(2)]])
  next
    case A_recv
    with Some inv show ?thesis by (simp add: step_def recv_inv_recv_step)
  next
    case A_send
    with Some have st: "send_step s = Some s'" by (simp add: step_def)
    from send_step_frame(8)[OF st] obtain es where
      es: "trace s' = trace s @ es" "list_all (\<lambda>e. owner e = A_send) es" by blast
    show ?thesis
      by (rule recv_inv_frame[OF inv send_step_frame(1)[OF st] es(1) owner_neq(4)[OF es(2)]])
  next
    case A_sigint
    with Some have st: "sigint_step s = Some s'" by (simp add: step_def)
    show ?thesis
      by (rule recv_inv_frame[OF inv, where es = "[]"])
         (simp_all add: sigint_step_frame[OF st])
  qed
  with Some show ?thesis by (simp add: move_def)
qed

lemma recv_inv_exec: "recv_inv s \<Longrightarrow> recv_inv (exec sched s)"
  by (induction sched arbitrary: s) (simp_all add: recv_inv_move)

lemma recv_inv_start: "recv_inv (start iv env rx0 tx0 cin0)"
  using not_recv_events[OF owner_neq(2)[OF establish_owner[of iv env]]]
  by (simp add: recv_inv_def start_fields)

lemma recv_inv_reach: "recv_inv (exec sched (start iv env rx0 tx0 cin0))"
  by (rule recv_inv_exec[OF recv_inv_start])

lemmas run_defs = start_def main_establish_def main_dial_def main_listen_def usage_def
  create_client_socket_def create_server_socket_def
  move_def step_def main_step_def recv_step_def send_step_def sigint_step_def handle_sigint_def
  running_store_def emit_def recv_handle_def send_handle_def send_while_def sys_recv_def sys_send_def
  wire_message_def endl_def bob_dials_def server_listens_def net_up_def c_str_def BUF_def
  EINTR_def EBADF_def EPIPE_def Let_def

lemma close_joins_append: "close_joins (xs @ ys) = close_joins xs @ close_joins ys"
  by (simp add: close_joins_def)

lemma close_joins_other:
  assumes "list_all (\<lambda>e. owner e \<noteq> A_main) es"
  shows "close_joins es = []"
proof -
  have *: "\<And>e. e \<in> set es \<Longrightarrow> owner e \<noteq> A_main"
    using assms by (simp add: list_all_iff)
  show ?thesis
    unfolding close_joins_def filter_empty_conv
    by (auto dest!: * simp: owner_def split: ev.splits)
qed

lemma send_step_pc:
  assumes "send_step s = Some s'"
  shows "send_pc s \<noteq> S_unborn" "send_pc s \<noteq> S_done" "send_pc s' \<noteq> S_unborn"
  using assms
  by (auto simp: send_step_def send_handle_def send_while_def emit_def running_store_def Let_def
           split: spc.splits list.splits cin_ev.splits option.splits if_splits)

lemma recv_step_pc:
  assumes "recv_step s = Some s'"
  shows "recv_pc s \<noteq> R_unborn" "recv_pc s \<noteq> R_done" "recv_pc s' \<noteq> R_unborn"
  using assms
  by (auto simp: recv_step_def recv_handle_def emit_def running_store_def Let_def
           split: rpc.splits option.splits if_splits)

lemma session_inv_frame:
  assumes "session_inv s" "main_pc s' = main_pc s" "conn s' = conn s" "running s' \<Longrightarrow> running s"
    "trace s' = trace s @ es" "list_all (\<lambda>e. owner e \<noteq> A_main) es"
    "send_pc s = S_unborn \<or> send_pc s = S_done \<Longrightarrow> send_pc s' = send_pc s"
    "recv_pc s = R_unborn \<or> recv_pc s = R_done \<Longrightarrow> recv_pc s' = recv_pc s"
  shows "session_inv s'"
  using assms(1,4,7,8) close_joins_other[OF assms(6)]
  unfolding session_inv_def assms(2,3,5) close_joins_append
  by (auto split: mpc.splits)

lemma session_inv_main_step:
  assumes "session_inv s" "main_step s = Some s'"
  shows "session_inv s'"
  using assms
  by (auto simp: main_step_def session_inv_def emit_def endl_def close_joins_append close_joins_def
           split: mpc.splits if_splits)

lemma owner_neq_main:
  "list_all (\<lambda>e. owner e = A_recv) es \<Longrightarrow> list_all (\<lambda>e. owner e \<noteq> A_main) es"
  "list_all (\<lambda>e. owner e = A_send) es \<Longrightarrow> list_all (\<lambda>e. owner e \<noteq> A_main) es"
  by (auto simp: list_all_iff)

lemma session_inv_move: "session_inv s \<Longrightarrow> session_inv (move a s)"
proof (cases "step a s")
  case None
  assume "session_inv s"
  with None show ?thesis by (simp add: move_def)
next
  case (Some s')
  assume inv: "session_inv s"
  have "session_inv s'"
  proof (cases a)
    case A_main
    with Some inv show ?thesis by (simp add: step_def session_inv_main_step)
  next
    case A_recv
    with Some have st: "recv_step s = Some s'" by (simp add: step_def)
    note f = recv_step_frame[OF st]
    from f(9) obtain es where
      es: "trace s' = trace s @ es" "list_all (\<lambda>e. owner e = A_recv) es" by blast
    show ?thesis
      by (rule session_inv_frame[OF inv f(2) f(3) f(8) es(1) owner_neq_main(1)[OF es(2)]])
         (use recv_step_pc[OF st] f(1) in auto)
  next
    case A_send
    with Some have st: "send_step s = Some s'" by (simp add: step_def)
    note f = send_step_frame[OF st]
    from f(8) obtain es where
      es: "trace s' = trace s @ es" "list_all (\<lambda>e. owner e = A_send) es" by blast
    show ?thesis
      by (rule session_inv_frame[OF inv f(3) f(4) f(7) es(1) owner_neq_main(2)[OF es(2)]])
         (use send_step_pc[OF st] f(2) in auto)
  next
    case A_sigint
    with Some have st: "sigint_step s = Some s'" by (simp add: step_def)
    show ?thesis
      by (rule session_inv_frame[OF inv, where es = "[]"])
         (simp_all add: sigint_step_frame[OF st])
  qed
  with Some show ?thesis by (simp add: move_def)
qed

lemma session_inv_exec: "session_inv s \<Longrightarrow> session_inv (exec sched s)"
  by (induction sched arbitrary: s) (simp_all add: session_inv_move)

lemma close_joins_endl: "close_joins (endl a) = []"
  by (simp add: close_joins_def endl_def)

lemma close_joins_establish: "close_joins (snd (main_establish iv env)) = []"
proof (cases "args iv")
  case Nil
  then show ?thesis by (simp add: main_establish_def usage_def close_joins_def)
next
  case (Cons a rest)
  have srv: "close_joins (snd (create_server_socket env)) = []"
    by (simp add: create_server_socket_def close_joins_def)
  have cli: "close_joins (snd (create_client_socket env)) = []"
    by (simp add: create_client_socket_def Let_def close_joins_def)
  have "close_joins (snd (main_listen rest env)) = []"
    by (cases rest)
       (simp_all add: main_listen_def Let_def close_joins_append close_joins_endl srv,
        simp_all add: close_joins_def endl_def)
  moreover have "close_joins (snd (main_dial a rest env)) = []"
    by (cases rest)
       (simp_all add: main_dial_def Let_def close_joins_append close_joins_endl cli,
        simp_all add: close_joins_def endl_def)
  ultimately show ?thesis using Cons by (simp add: main_establish_def)
qed

lemma session_inv_start:
  assumes "fst (main_establish iv env) = Inr u"
  shows "session_inv (start iv env rx0 tx0 cin0)"
  using assms close_joins_establish[of iv env]
  by (simp add: session_inv_def start_fields)

lemma exec_exited:
  assumes "main_pc s = M_exited c" "recv_pc s = R_unborn" "send_pc s = S_unborn"
  shows "exec sched s = s"
proof (induction sched)
  case Nil
  show ?case by simp
next
  case (Cons a sched)
  have "move a s = s"
    using assms
    by (cases a) (simp_all add: move_def step_def main_step_def recv_step_def send_step_def sigint_step_def)
  with Cons show ?case by simp
qed

lemma establish_code: "fst (main_establish iv env) = Inl c \<Longrightarrow> c = 1"
  by (cases "args iv"; cases "tl (args iv)")
     (auto simp: main_establish_def main_listen_def main_dial_def Let_def split: if_splits)

lemma connect_first_fails:
  "list_all (\<lambda>(sfd, rc). sfd = - 1 \<or> rc \<noteq> 0) tries \<Longrightarrow> connect_first tries = - 1"
  by (induction tries rule: connect_first.induct) auto

lemma failure_establish:
  assumes "establishment_failure iv env"
  shows "fst (main_establish iv env) = Inl 1"
proof (cases "args iv")
  case Nil
  then show ?thesis by (simp add: main_establish_def)
next
  case (Cons a rest)
  show ?thesis
  proof (cases rest)
    case Nil
    with Cons show ?thesis by (simp add: main_establish_def main_listen_def main_dial_def)
  next
    case (Cons port rest2)
    show ?thesis
    proof (cases "a = ''--listen''")
      case True
      with assms \<open>args iv = a # rest\<close> Cons
      have "gai_rc env \<noteq> 0 \<or> bind_rc env \<noteq> 0 \<or> listen_rc env \<noteq> 0 \<or> accept_rc env < 0"
        by (simp add: establishment_failure_def)
      with True \<open>args iv = a # rest\<close> Cons show ?thesis
        by (auto simp: main_establish_def main_listen_def create_server_socket_def Let_def)
    next
      case False
      with assms \<open>args iv = a # rest\<close> Cons
      have "gai_rc env \<noteq> 0 \<or> connect_first (client_tries env) = - 1"
        by (auto simp: establishment_failure_def connect_first_fails)
      with False \<open>args iv = a # rest\<close> Cons show ?thesis
        by (auto simp: main_establish_def main_dial_def create_client_socket_def Let_def)
    qed
  qed
qed

lemma move_running: "running (move a s) \<Longrightarrow> running s"
proof (cases "step a s")
  case None
  assume "running (move a s)"
  with None show ?thesis by (simp add: move_def)
next
  case (Some s')
  assume r: "running (move a s)"
  with Some have r': "running s'" by (simp add: move_def)
  show ?thesis
  proof (cases a)
    case A_main
    with Some r' show ?thesis using main_step_frame(2)[of s s'] by (simp add: step_def)
  next
    case A_recv
    with Some r' show ?thesis using recv_step_frame(8)[of s s'] by (simp add: step_def)
  next
    case A_send
    with Some r' show ?thesis using send_step_frame(7)[of s s'] by (simp add: step_def)
  next
    case A_sigint
    with Some r' show ?thesis using sigint_step_frame[of s s'] by (simp add: step_def)
  qed
qed

lemma exec_running: "running (exec sched s) \<Longrightarrow> running s"
  by (induction sched arbitrary: s) (auto dest: move_running)

lemma sigint_twice: "move A_sigint (move A_sigint s) = move A_sigint s"
  by (simp add: move_def step_def sigint_step_def handle_sigint_def running_store_def
           split: mpc.splits)

lemma stuck_exec:
  assumes "main_step s = None" "recv_step s = None" "send_step s = None" "\<not> running s"
  shows "exec sched s = s"
proof (induction sched)
  case Nil
  show ?case by simp
next
  case (Cons a sched)
  from assms(4) have "s\<lparr>running := False\<rparr> = s" by (cases s) simp
  then have "move a s = s"
    using assms(1-3)
    by (cases a)
       (simp_all add: move_def step_def sigint_step_def handle_sigint_def running_store_def
             split: mpc.splits)
  with Cons show ?case by simp
qed

lemma send_error_calls_append:
  "send_error_calls (xs @ ys) = send_error_calls xs @ send_error_calls ys"
  by (simp add: send_error_calls_def)

lemma send_error_calls_other:
  assumes "list_all (\<lambda>e. owner e \<noteq> A_send) es"
  shows "send_error_calls es = []"
proof -
  have *: "\<And>e. e \<in> set es \<Longrightarrow> owner e \<noteq> A_send"
    using assms by (simp add: list_all_iff)
  show ?thesis
    unfolding send_error_calls_def filter_empty_conv
    by (auto dest!: * simp: owner_def split: ev.splits)
qed

lemma fail_inv_frame:
  assumes "fail_inv s" "trace s' = trace s @ es" "list_all (\<lambda>e. owner e \<noteq> A_send) es"
    "send_failed (trace s) \<Longrightarrow> send_pc s' = S_done"
  shows "fail_inv s'"
  using assms(1,4) not_send_events[OF assms(3)] send_error_calls_other[OF assms(3)]
  by (simp add: fail_inv_def assms(2) trace_append send_error_calls_append split: if_splits)

lemma fail_inv_send_step:
  assumes "fail_inv s" "send_step s = Some s'"
  shows "fail_inv s'"
proof -
  from send_step_pc(2)[OF assms(2)] assms(1)
  have nf: "\<not> send_failed (trace s)" "send_error_calls (trace s) = []"
    by (auto simp: fail_inv_def split: if_splits)
  note nf' = nf[unfolded send_failed_def send_error_calls_def]
  from assms(2) nf' show ?thesis
    unfolding fail_inv_def send_failed_def send_error_calls_def send_calls_def
    by (auto simp: send_step_def send_handle_def emit_def running_store_def Let_def
                   send_while_def
             split: spc.splits list.splits cin_ev.splits option.splits if_splits)
qed

lemma fail_inv_move:
  assumes si: "send_inv s" and fi: "fail_inv s"
  shows "fail_inv (move a s)"
proof (cases "step a s")
  case None
  with fi show ?thesis by (simp add: move_def)
next
  case (Some s')
  have "fail_inv s'"
  proof (cases a)
    case A_main
    with Some have st: "main_step s = Some s'" by (simp add: step_def)
    from main_step_frame(8)[OF st] obtain es where
      es: "trace s' = trace s @ es" "list_all (\<lambda>e. owner e = A_main) es" by blast
    have "send_pc s' = S_done" if "send_failed (trace s)"
    proof -
      from that si have d: "send_pc s = S_done" by (auto simp: send_inv_def)
      with si have "main_pc s \<noteq> M_spawn_s" by (auto simp: send_inv_def)
      with st d show ?thesis
        by (auto simp: main_step_def emit_def split: mpc.splits if_splits)
    qed
    then show ?thesis
      by (rule fail_inv_frame[OF fi es(1) owner_neq(1)[OF es(2)]])
  next
    case A_recv
    with Some have st: "recv_step s = Some s'" by (simp add: step_def)
    note f = recv_step_frame[OF st]
    from f(9) obtain es where
      es: "trace s' = trace s @ es" "list_all (\<lambda>e. owner e = A_recv) es" by blast
    have "send_pc s' = S_done" if "send_failed (trace s)"
      using that si f(1) by (auto simp: send_inv_def)
    then show ?thesis
      by (rule fail_inv_frame[OF fi es(1) owner_neq(3)[OF es(2)]])
  next
    case A_send
    with Some fi show ?thesis by (simp add: step_def fail_inv_send_step)
  next
    case A_sigint
    with Some have st: "sigint_step s = Some s'" by (simp add: step_def)
    have d: "send_pc s' = S_done" if "send_failed (trace s)"
      using that si by (auto simp: send_inv_def sigint_step_frame[OF st])
    show ?thesis
      by (rule fail_inv_frame[OF fi _ _ d, where es = "[]"])
         (simp_all add: sigint_step_frame[OF st])
  qed
  with Some show ?thesis by (simp add: move_def)
qed

lemma fail_inv_exec: "send_inv s \<Longrightarrow> fail_inv s \<Longrightarrow> fail_inv (exec sched s)"
  by (induction sched arbitrary: s) (simp_all add: fail_inv_move send_inv_move)

lemma fail_inv_reach: "fail_inv (exec sched (start iv env rx0 tx0 cin0))"
proof -
  have "fail_inv (start iv env rx0 tx0 cin0)"
    using not_send_events[OF owner_neq(1)[OF establish_owner[of iv env]]]
      send_error_calls_other[OF owner_neq(1)[OF establish_owner[of iv env]]]
    by (simp add: fail_inv_def start_fields)
  with send_inv_start show ?thesis by (rule fail_inv_exec)
qed

section \<open>The claims\<close>

text \<open>
  C1.  The claim: the connection is closed exactly once and only after both relays have
  returned.  The code closes it before it joins them.  In Bob's session where the peer
  closes first, at the moment \<^verbatim>\<open>main\<close> has closed the descriptor and waits in \<^verbatim>\<open>s.join()\<close>,
  the outbound relay has not returned: it is inside \<^verbatim>\<open>getline\<close>.  When the line arrives the
  relay calls \<^verbatim>\<open>send\<close> on the closed descriptor (\<^verbatim>\<open>EBADF\<close>), and only then do the joins
  happen and \<^verbatim>\<open>main\<close> exit.
\<close>

theorem C1_close_before_relay_returns:
  "conn (peer_closes_first [Line ''late'']) = Fd_closed \<and>
   main_pc (peer_closes_first [Line ''late'']) = M_join_s \<and>
   send_pc (peer_closes_first [Line ''late'']) = S_getline \<and>
   conn_calls (trace (exec [A_send, A_send, A_main, A_main] (peer_closes_first [Line ''late'']))) =
     [Sys_recv 1023 0 [] 0, Sys_shutdown, Sys_close,
      Sys_send (''bob: late'' @ [newline]) (- 1) EBADF, Joined A_send, Joined A_recv] \<and>
   main_pc (exec [A_send, A_send, A_main, A_main] (peer_closes_first [Line ''late''])) = M_exited 0"
  by (simp add: peer_closes_first_def run_defs conn_calls_def)

text \<open>
  C2 (as amended).  The inbound relay owns a buffer of 1024 bytes, but every \<^verbatim>\<open>recv\<close> it
  performs asks for at most \<open>BUF - 1 = 1023\<close> bytes, so every chunk it receives has at most
  1023 bytes and the terminating NUL written at \<^verbatim>\<open>buf[n]\<close> stays inside the buffer.
\<close>

theorem C2_recv_request:
  "(\<forall>len \<in> set (recv_requests (trace (exec sched (start iv env rx0 tx0 cin0)))). len = 1023) \<and>
   (\<forall>d \<in> set (chunks_received (trace (exec sched (start iv env rx0 tx0 cin0)))). length d \<le> 1023) \<and>
   length (rbuf (exec sched (start iv env rx0 tx0 cin0))) = 1024"
  using recv_inv_reach[of sched iv env rx0 tx0 cin0]
  by (simp add: recv_inv_def BUF_def list_all_iff)

text \<open>C2, witness: a session in which the relay reads a chunk and then the peer's close;
  both calls asked for 1023 bytes.\<close>

theorem C2_recv_request_witness:
  "recv_requests
     (trace (exec [A_main, A_main, A_recv, A_recv, A_recv, A_recv]
               (start bob_dials net_up [Rx_data ''hi'', Rx_eof] [] []))) = [1023, 1023] \<and>
   chunks_received
     (trace (exec [A_main, A_main, A_recv, A_recv, A_recv, A_recv]
               (start bob_dials net_up [Rx_data ''hi'', Rx_eof] [] []))) = [''hi'']"
  using C2_recv_request[of "[A_main, A_main, A_recv, A_recv, A_recv, A_recv]" bob_dials net_up
        "[Rx_data ''hi'', Rx_eof]" "[]" "[]"]
  by (simp add: run_defs recv_requests_def chunks_received_def)

text \<open>C2 as stated fails: the one \<^verbatim>\<open>recv\<close> of this session did not ask for 1024 bytes.\<close>

theorem C2_request_1024_counterexample:
  "\<not> (\<forall>len \<in> set (recv_requests
           (trace (exec [A_main, A_main, A_recv, A_recv]
                     (start bob_dials net_up [Rx_data ''hi''] [] [])))). len = 1024)"
  by (simp add: run_defs recv_requests_def)

text \<open>
  C3.  Partial-write resilience.  In every state of every execution, with \<open>ls\<close> the lines
  read so far: while the outbound relay is inside its inner loop, the wire holds the
  messages of all earlier lines in full and exactly the first \<open>sent\<close> bytes of the message
  of the current line, and \<open>to_send\<close> is what remains of it; whenever the relay is outside
  the inner loop and has not failed (in particular before it reads the next line), the
  wire holds the message of every line read, in full; and when a write error stopped
  the relay, the flag is cleared, the wire holds the earlier messages in full and a
  proper prefix of the last one, and the failing \<^verbatim>\<open>send\<close> (its \<^verbatim>\<open>errno\<close> not \<^verbatim>\<open>EINTR\<close>) is the
  last \<^verbatim>\<open>send\<close> the relay made.

  A write error always stops the relay.  If no \<^verbatim>\<open>send\<close> has failed with an \<^verbatim>\<open>errno\<close> other
  than \<^verbatim>\<open>EINTR\<close>, no error has been printed; if one has, the error has been printed, the
  relay has returned, the flag is cleared, and that call is the only such call and the
  last \<^verbatim>\<open>send\<close> of the trace.  Step by step: when the relay is inside its inner loop and
  \<^verbatim>\<open>send\<close> fails with an \<^verbatim>\<open>errno\<close> other than \<^verbatim>\<open>EINTR\<close>, the relay's move records the call,
  prints the error, clears the flag and returns, the wire and the console untouched; and
  a relay that has returned never moves again, so the remainder is never sent and no
  further line is read.
\<close>

theorem C3_partial_write:
  assumes "s = exec sched (start iv env rx0 tx0 cin0)"
    and "ls = lines_read (trace s)" and "u = username s"
  shows "(case send_pc s of
           S_sending out sent to_send \<Rightarrow>
             ls \<noteq> [] \<and> out = wire_message u (last ls) \<and>
             wire s = concat (map (wire_message u) (butlast ls)) @ take sent out \<and>
             sent + to_send = length out \<and> 0 < to_send \<and> \<not> send_failed (trace s)
         | S_done \<Rightarrow>
             (if send_failed (trace s) then
                \<not> running s \<and> ls \<noteq> [] \<and>
                (\<exists>k < length (wire_message u (last ls)).
                   wire s = concat (map (wire_message u) (butlast ls))
                            @ take k (wire_message u (last ls))) \<and>
                send_calls (trace s) \<noteq> [] \<and>
                (\<exists>off n e. last (send_calls (trace s)) = Sys_send off n e \<and> n < 0 \<and> e \<noteq> EINTR)
              else wire s = concat (map (wire_message u) ls))
         | _ \<Rightarrow> wire s = concat (map (wire_message u) ls) \<and> \<not> send_failed (trace s)) \<and>
        (if send_error_calls (trace s) = [] then \<not> send_failed (trace s)
         else send_failed (trace s) \<and> send_pc s = S_done \<and> \<not> running s \<and>
              send_error_calls (trace s) = [last (send_calls (trace s))]) \<and>
        (\<forall>out sent to_send n e q.
           send_pc s = S_sending out sent to_send \<longrightarrow>
           sys_send (conn s) (take to_send (drop sent out)) (txq s) = Some ((n, e), q) \<longrightarrow>
           n < 0 \<longrightarrow> e \<noteq> EINTR \<longrightarrow>
             send_pc (move A_send s) = S_done \<and> \<not> running (move A_send s) \<and>
             wire (move A_send s) = wire s \<and> cin (move A_send s) = cin s \<and>
             trace (move A_send s) =
               trace s @ [Sys_send (take to_send (drop sent out)) n e, Perror A_send ''send'']) \<and>
        (\<forall>t. send_pc t = S_done \<longrightarrow> move A_send t = t)"
proof -
  have si: "send_inv s" unfolding assms(1) by (rule send_inv_reach)
  have fi: "fail_inv s" unfolding assms(1) by (rule fail_inv_reach)
  have a: "case send_pc s of
           S_sending out sent to_send \<Rightarrow>
             ls \<noteq> [] \<and> out = wire_message u (last ls) \<and>
             wire s = concat (map (wire_message u) (butlast ls)) @ take sent out \<and>
             sent + to_send = length out \<and> 0 < to_send \<and> \<not> send_failed (trace s)
         | S_done \<Rightarrow>
             (if send_failed (trace s) then
                \<not> running s \<and> ls \<noteq> [] \<and>
                (\<exists>k < length (wire_message u (last ls)).
                   wire s = concat (map (wire_message u) (butlast ls))
                            @ take k (wire_message u (last ls))) \<and>
                send_calls (trace s) \<noteq> [] \<and>
                (\<exists>off n e. last (send_calls (trace s)) = Sys_send off n e \<and> n < 0 \<and> e \<noteq> EINTR)
              else wire s = concat (map (wire_message u) ls))
         | _ \<Rightarrow> wire s = concat (map (wire_message u) ls) \<and> \<not> send_failed (trace s)"
    using si unfolding assms(2,3) send_inv_def by (auto split: spc.splits)
  have b: "if send_error_calls (trace s) = [] then \<not> send_failed (trace s)
         else send_failed (trace s) \<and> send_pc s = S_done \<and> \<not> running s \<and>
              send_error_calls (trace s) = [last (send_calls (trace s))]"
  proof (cases "send_failed (trace s)")
    case True
    with fi have "send_pc s = S_done" "send_error_calls (trace s) = [last (send_calls (trace s))]"
      by (simp_all add: fail_inv_def)
    moreover from this(1) True si have "\<not> running s" by (simp add: send_inv_def)
    ultimately show ?thesis using True by simp
  next
    case False
    with fi show ?thesis by (simp add: fail_inv_def)
  qed
  have c: "\<forall>out sent to_send n e q.
           send_pc s = S_sending out sent to_send \<longrightarrow>
           sys_send (conn s) (take to_send (drop sent out)) (txq s) = Some ((n, e), q) \<longrightarrow>
           n < 0 \<longrightarrow> e \<noteq> EINTR \<longrightarrow>
             send_pc (move A_send s) = S_done \<and> \<not> running (move A_send s) \<and>
             wire (move A_send s) = wire s \<and> cin (move A_send s) = cin s \<and>
             trace (move A_send s) =
               trace s @ [Sys_send (take to_send (drop sent out)) n e, Perror A_send ''send'']"
    by (simp add: move_def step_def send_step_def Let_def send_handle_def emit_def running_store_def)
  have d: "\<forall>t. send_pc t = S_done \<longrightarrow> move A_send t = t"
    by (simp add: move_def step_def send_step_def)
  from a b c d show ?thesis by blast
qed

text \<open>C3, witness: in one session the kernel takes 3 bytes, then interrupts the call,
  then takes the rest, and the relay is back at the head of its loop with the whole
  message on the wire; in the other the kernel takes 3 bytes and then fails the call
  with \<^verbatim>\<open>ECONNRESET\<close>, and the relay stops with the flag cleared, 3 bytes on the wire,
  the second line unread, and no move left.\<close>

theorem C3_partial_write_witness:
  "send_pc (exec [A_main, A_main, A_send, A_send, A_send, A_send, A_send]
              (start bob_dials net_up [] [Tx_accept 3, Tx_err EINTR, Tx_accept 100]
                 [Line ''yo'', Line ''again''])) = S_head \<and>
   lines_read (trace (exec [A_main, A_main, A_send, A_send, A_send, A_send, A_send]
              (start bob_dials net_up [] [Tx_accept 3, Tx_err EINTR, Tx_accept 100]
                 [Line ''yo'', Line ''again'']))) = [''yo''] \<and>
   wire (exec [A_main, A_main, A_send, A_send, A_send, A_send, A_send]
              (start bob_dials net_up [] [Tx_accept 3, Tx_err EINTR, Tx_accept 100]
                 [Line ''yo'', Line ''again''])) = wire_message ''bob'' ''yo'' \<and>
   send_calls (trace (exec [A_main, A_main, A_send, A_send, A_send, A_send, A_send]
              (start bob_dials net_up [] [Tx_accept 3, Tx_err EINTR, Tx_accept 100]
                 [Line ''yo'', Line ''again'']))) =
     [Sys_send (''bob: yo'' @ [newline]) 3 0, Sys_send ('': yo'' @ [newline]) (- 1) EINTR,
      Sys_send ('': yo'' @ [newline]) 5 0] \<and>
   send_pc write_failing = S_sending (''bob: yo'' @ [newline]) 3 5 \<and>
   wire write_failing = ''bob'' \<and>
   sys_send (conn write_failing) (take 5 (drop 3 (''bob: yo'' @ [newline]))) (txq write_failing) =
     Some ((- 1, ECONNRESET), [Tx_accept 100]) \<and>
   send_pc (move A_send write_failing) = S_done \<and>
   \<not> running (move A_send write_failing) \<and>
   wire (move A_send write_failing) = ''bob'' \<and>
   cin (move A_send write_failing) = [Line ''again''] \<and>
   trace (move A_send write_failing) =
     trace write_failing
     @ [Sys_send (take 5 (drop 3 (''bob: yo'' @ [newline]))) (- 1) ECONNRESET, Perror A_send ''send''] \<and>
   exec [A_send, A_send, A_main] (move A_send write_failing) =
     move A_main (move A_send write_failing) \<and>
   send_error_calls (trace (move A_send write_failing)) =
     [last (send_calls (trace (move A_send write_failing)))]"
proof -
  let ?s = "exec [A_main, A_main, A_send, A_send, A_send, A_send, A_send]
              (start bob_dials net_up [] [Tx_accept 3, Tx_err EINTR, Tx_accept 100]
                 [Line ''yo'', Line ''again''])"
  have f: "send_pc ?s = S_head" "lines_read (trace ?s) = [''yo'']" "username ?s = ''bob''"
    "send_calls (trace ?s) =
       [Sys_send (''bob: yo'' @ [newline]) 3 0, Sys_send ('': yo'' @ [newline]) (- 1) EINTR,
        Sys_send ('': yo'' @ [newline]) 5 0]"
    by (simp_all add: run_defs lines_read_def send_calls_def)
  note ok = C3_partial_write[OF refl refl refl, where sched = "[A_main, A_main, A_send, A_send, A_send, A_send, A_send]"
      and iv = bob_dials and env = net_up and ?rx0.0 = "[]"
      and ?tx0.0 = "[Tx_accept 3, Tx_err EINTR, Tx_accept 100]"
      and ?cin0.0 = "[Line ''yo'', Line ''again'']", THEN conjunct1]
  then have w: "wire ?s = wire_message ''bob'' ''yo''"
    unfolding f by simp
  have g: "send_pc write_failing = S_sending (''bob: yo'' @ [newline]) 3 5"
    "conn write_failing = Fd_open" "txq write_failing = [Tx_err ECONNRESET, Tx_accept 100]"
    "wire write_failing = ''bob''" "cin write_failing = [Line ''again'']"
    by (simp_all add: write_failing_def run_defs)
  have a: "sys_send (conn write_failing) (take 5 (drop 3 (''bob: yo'' @ [newline]))) (txq write_failing) =
     Some ((- 1, ECONNRESET), [Tx_accept 100])"
    by (simp add: g sys_send_def)
  have n: "(- 1 :: int) < 0" by simp
  have ne: "ECONNRESET \<noteq> EINTR" by (simp add: ECONNRESET_def EINTR_def)
  note t = C3_partial_write[OF write_failing_def refl refl]
  note c = t[THEN conjunct2, THEN conjunct2, THEN conjunct1, rule_format, OF g(1) a n ne]
  note d = t[THEN conjunct2, THEN conjunct2, THEN conjunct2, rule_format]
  from c have pc: "send_pc (move A_send write_failing) = S_done" by simp
  have st: "exec [A_send, A_send, A_main] (move A_send write_failing) =
     move A_main (move A_send write_failing)"
    by (simp add: d[OF pc])
  have mv: "move A_send write_failing = exec (([A_main, A_main, A_send, A_send, A_send]) @ [A_send])
       (start bob_dials net_up [] [Tx_accept 3, Tx_err ECONNRESET, Tx_accept 100]
          [Line ''yo'', Line ''again''])"
    by (simp add: write_failing_def exec_append)
  note b = C3_partial_write[OF mv refl refl, THEN conjunct2, THEN conjunct1]
  have tr: "trace (move A_send write_failing) =
     trace write_failing
     @ [Sys_send (take 5 (drop 3 (''bob: yo'' @ [newline]))) (- 1) ECONNRESET, Perror A_send ''send'']"
    using c by simp
  have "send_error_calls (trace (move A_send write_failing)) \<noteq> []"
    unfolding tr by (simp add: send_error_calls_def ne)
  with b have e: "send_error_calls (trace (move A_send write_failing)) =
     [last (send_calls (trace (move A_send write_failing)))]"
    by simp
  from f w g a c st e show ?thesis by simp
qed

text \<open>
  C4.  For every line read from standard input the outbound relay echoes exactly
  \<^verbatim>\<open>"[you] " + name + ": " + line\<close> and a newline, and the buffer it transmits is exactly
  \<^verbatim>\<open>name + ": " + line + "\n"\<close>: the relay's output on \<^verbatim>\<open>cout\<close> is the echo of each line read,
  in order; when \<^verbatim>\<open>getline\<close> returns a line the relay enters the inner loop with that
  message and nothing sent; and inside the inner loop the buffer is the message of the
  last line read and the bytes offered to \<^verbatim>\<open>send\<close> are its unsent rest.
\<close>

theorem C4_message_and_echo:
  assumes "s = exec sched (start iv env rx0 tx0 cin0)"
    and "ls = lines_read (trace s)" and "u = username s"
  shows "cout_events A_send (trace s) =
           concat (map (\<lambda>l. [Cout A_send ''[you] '', Cout A_send u, Cout A_send '': '',
                              Cout A_send l, Cout A_send [newline], Cout_flush A_send]) ls) \<and>
         cout_text A_send (trace s) =
           concat (map (\<lambda>l. ''[you] '' @ u @ '': '' @ l @ [newline]) ls) \<and>
         (case send_pc s of
            S_sending out sent to_send \<Rightarrow>
              out = u @ '': '' @ last ls @ [newline] \<and> take to_send (drop sent out) = drop sent out
          | S_getline \<Rightarrow>
              (case cin s of
                 Line l # q \<Rightarrow>
                   send_pc (move A_send s) =
                     S_sending (u @ '': '' @ l @ [newline]) 0 (length (u @ '': '' @ l @ [newline])) \<and>
                   lines_read (trace (move A_send s)) = ls @ [l]
               | _ \<Rightarrow> True)
          | _ \<Rightarrow> True)"
proof -
  have inv: "send_inv s" unfolding assms(1) by (rule send_inv_reach)
  have a: "cout_events A_send (trace s) =
           concat (map (\<lambda>l. [Cout A_send ''[you] '', Cout A_send u, Cout A_send '': '',
                              Cout A_send l, Cout A_send [newline], Cout_flush A_send]) ls)"
    and b: "cout_text A_send (trace s) =
           concat (map (\<lambda>l. ''[you] '' @ u @ '': '' @ l @ [newline]) ls)"
    using inv unfolding assms(2,3) send_inv_def by simp_all
  have c: "case send_pc s of
            S_sending out sent to_send \<Rightarrow>
              out = u @ '': '' @ last ls @ [newline] \<and> take to_send (drop sent out) = drop sent out
          | S_getline \<Rightarrow>
              (case cin s of
                 Line l # q \<Rightarrow>
                   send_pc (move A_send s) =
                     S_sending (u @ '': '' @ l @ [newline]) 0 (length (u @ '': '' @ l @ [newline])) \<and>
                   lines_read (trace (move A_send s)) = ls @ [l]
               | _ \<Rightarrow> True)
          | _ \<Rightarrow> True"
  proof (cases "send_pc s")
    case (S_sending out sent to_send)
    with inv have o: "out = wire_message u (last ls)" and sum: "sent + to_send = length out"
      unfolding assms(2,3) by (simp_all add: send_inv_def)
    from sum have "take to_send (drop sent out) = drop sent out" by simp
    with o S_sending show ?thesis by (simp add: wire_message_def)
  next
    case S_getline
    then show ?thesis
      unfolding assms(2,3)
      by (simp add: move_def step_def send_step_def Let_def send_while_def wire_message_def
            emit_def lines_read_def split: list.splits cin_ev.splits)
  qed simp_all
  from a b c show ?thesis by simp
qed

text \<open>C4, witness: a listener with the default name sends two lines.\<close>

theorem C4_message_and_echo_witness:
  "lines_read
     (trace (exec [A_main, A_main, A_send, A_send, A_send, A_send, A_send, A_send]
               (start server_listens net_up [] [Tx_accept 100, Tx_accept 100]
                  [Line ''hello'', Line ''hi there'']))) = [''hello'', ''hi there''] \<and>
   cout_text A_send
     (trace (exec [A_main, A_main, A_send, A_send, A_send, A_send, A_send, A_send]
               (start server_listens net_up [] [Tx_accept 100, Tx_accept 100]
                  [Line ''hello'', Line ''hi there'']))) =
     ''[you] server: hello'' @ [newline] @ ''[you] server: hi there'' @ [newline] \<and>
   wire (exec [A_main, A_main, A_send, A_send, A_send, A_send, A_send, A_send]
               (start server_listens net_up [] [Tx_accept 100, Tx_accept 100]
                  [Line ''hello'', Line ''hi there''])) =
     ''server: hello'' @ [newline] @ ''server: hi there'' @ [newline]"
proof -
  let ?s = "exec [A_main, A_main, A_send, A_send, A_send, A_send, A_send, A_send]
               (start server_listens net_up [] [Tx_accept 100, Tx_accept 100]
                  [Line ''hello'', Line ''hi there''])"
  have f: "lines_read (trace ?s) = [''hello'', ''hi there'']" "username ?s = ''server''"
    "wire ?s = ''server: hello'' @ [newline] @ ''server: hi there'' @ [newline]"
    by (simp_all add: run_defs lines_read_def)
  from C4_message_and_echo[OF refl refl refl, of
      "[A_main, A_main, A_send, A_send, A_send, A_send, A_send, A_send]" server_listens net_up
      "[]" "[Tx_accept 100, Tx_accept 100]" "[Line ''hello'', Line ''hi there'']"]
  have "cout_text A_send (trace ?s) =
          concat (map (\<lambda>l. ''[you] '' @ username ?s @ '': '' @ l @ [newline]) (lines_read (trace ?s)))"
    by (rule conjunct1[OF conjunct2])
  then have "cout_text A_send (trace ?s) =
     ''[you] server: hello'' @ [newline] @ ''[you] server: hi there'' @ [newline]"
    unfolding f by simp
  with f show ?thesis by simp
qed

text \<open>
  C5.  For every read of the inbound relay that returns \<open>n > 0\<close> bytes, the relay puts on
  \<^verbatim>\<open>cout\<close> the prefix \<^verbatim>\<open>"[remote] "\<close>, then the received bytes as text (a C string), then a
  newline if and only if the last received byte is not a newline, and then flushes.  In
  every execution, what the relay has put on \<^verbatim>\<open>cout\<close> is exactly this sequence for each
  chunk received so far, in order.
\<close>

theorem C5_remote_line:
  "cout_events A_recv (trace (exec sched (start iv env rx0 tx0 cin0))) =
     concat (map (\<lambda>d. [Cout A_recv ''[remote] '', Cout A_recv (c_str d)]
                       @ (if last d \<noteq> newline then [Cout A_recv [newline]] else [])
                       @ [Cout_flush A_recv])
                 (chunks_received (trace (exec sched (start iv env rx0 tx0 cin0)))))"
  using recv_inv_reach[of sched iv env rx0 tx0 cin0]
  by (simp add: recv_inv_def c_str_def)

text \<open>C5, witness: a chunk without and a chunk with a final newline.\<close>

theorem C5_remote_line_witness:
  "cout_events A_recv
     (trace (exec [A_main, A_main, A_recv, A_recv, A_recv, A_recv]
               (start bob_dials net_up [Rx_data ''hi'', Rx_data (''yo'' @ [newline])] [] []))) =
     [Cout A_recv ''[remote] '', Cout A_recv ''hi'', Cout A_recv [newline], Cout_flush A_recv,
      Cout A_recv ''[remote] '', Cout A_recv (''yo'' @ [newline]), Cout_flush A_recv]"
proof -
  have "chunks_received
     (trace (exec [A_main, A_main, A_recv, A_recv, A_recv, A_recv]
               (start bob_dials net_up [Rx_data ''hi'', Rx_data (''yo'' @ [newline])] [] []))) =
     [''hi'', ''yo'' @ [newline]]"
    by (simp add: run_defs chunks_received_def)
  then show ?thesis
    using C5_remote_line[of "[A_main, A_main, A_recv, A_recv, A_recv, A_recv]" bob_dials net_up
        "[Rx_data ''hi'', Rx_data (''yo'' @ [newline])]" "[]" "[]"]
    by (simp add: c_str_def)
qed

text \<open>
  C6.  On a read of 0 bytes the inbound relay prints the notice, clears the flag and
  stops.  The claim adds that this alone brings the session to \<^verbatim>\<open>Stopped\<close>.  In Bob's
  session with a silent console it does not: \<^verbatim>\<open>main\<close> has shut down and closed the socket
  and waits in \<^verbatim>\<open>s.join()\<close>, the outbound relay is inside \<^verbatim>\<open>getline\<close>, and no schedule
  changes the state any more.
\<close>

theorem C6_peer_close_leaves_session_stopping:
  "recv_calls (trace (peer_closes_first [])) = [Sys_recv 1023 0 [] 0] \<and>
   Cerr A_recv ''Connection closed by peer'' \<in> set (trace (peer_closes_first [])) \<and>
   \<not> running (peer_closes_first []) \<and>
   recv_pc (peer_closes_first []) = R_done \<and>
   send_pc (peer_closes_first []) = S_getline \<and>
   main_pc (peer_closes_first []) = M_join_s \<and>
   (\<forall>sched. exec sched (peer_closes_first []) = peer_closes_first [])"
proof -
  have f: "recv_calls (trace (peer_closes_first [])) = [Sys_recv 1023 0 [] 0]"
    "Cerr A_recv ''Connection closed by peer'' \<in> set (trace (peer_closes_first []))"
    "\<not> running (peer_closes_first [])"
    "recv_pc (peer_closes_first []) = R_done"
    "send_pc (peer_closes_first []) = S_getline"
    "main_pc (peer_closes_first []) = M_join_s"
    "cin (peer_closes_first []) = []"
    by (simp_all add: peer_closes_first_def run_defs recv_calls_def)
  have "exec sched (peer_closes_first []) = peer_closes_first []" for sched
    by (rule stuck_exec) (simp_all add: main_step_def recv_step_def send_step_def f)
  with f show ?thesis by simp
qed

text \<open>
  C7.  The flag \<^verbatim>\<open>running\<close> starts true (no shutdown requested) and is monotonic: in no
  execution, from any state, does a step of \<^verbatim>\<open>main\<close>, of a relay or of the signal handler
  set it back to true.  Requesting shutdown is idempotent: storing false twice is
  storing it once, the handler run twice is the handler run once, and an execution in
  which the request is made twice in a row ends in the same state as the execution in
  which it is made once.
\<close>

theorem C7_flag_monotonic:
  "running (start iv env rx0 tx0 cin0) \<and>
   (running (exec sched s) \<longrightarrow> running s) \<and>
   \<not> running (running_store False s) \<and>
   running_store False (running_store False s) = running_store False s \<and>
   handle_sigint (handle_sigint s) = handle_sigint s \<and>
   exec (xs @ [A_sigint, A_sigint] @ ys) s = exec (xs @ [A_sigint] @ ys) s"
proof -
  have "exec (xs @ [A_sigint, A_sigint] @ ys) s = exec (xs @ [A_sigint] @ ys) s"
    by (simp add: exec_append sigint_twice)
  moreover have "running (exec sched s) \<longrightarrow> running s"
    using exec_running by blast
  ultimately show ?thesis
    by (simp add: start_fields running_store_def handle_sigint_def)
qed

text \<open>C7, witness: after SIGINT the flag stays cleared through a whole session, and a
  doubled SIGINT changes nothing.\<close>

theorem C7_flag_monotonic_witness:
  "\<not> running (exec [A_sigint] (start bob_dials net_up [] [] [])) \<and>
   \<not> running (exec [A_main, A_main, A_recv, A_send, A_recv, A_send, A_main]
                 (exec [A_sigint] (start bob_dials net_up [] [] [Line ''x'']))) \<and>
   exec ([A_main] @ [A_sigint, A_sigint] @ [A_main, A_recv]) (start bob_dials net_up [] [] []) =
   exec ([A_main] @ [A_sigint] @ [A_main, A_recv]) (start bob_dials net_up [] [] [])"
proof -
  have a: "\<not> running (exec [A_sigint] (start bob_dials net_up [] [] [Line ''x'']))"
       "\<not> running (exec [A_sigint] (start bob_dials net_up [] [] []))"
    by (simp_all add: run_defs)
  from a(1) C7_flag_monotonic[where sched = "[A_main, A_main, A_recv, A_send, A_recv, A_send, A_main]"
      and s = "exec [A_sigint] (start bob_dials net_up [] [] [Line ''x''])"]
  have b: "\<not> running (exec [A_main, A_main, A_recv, A_send, A_recv, A_send, A_main]
                 (exec [A_sigint] (start bob_dials net_up [] [] [Line ''x''])))"
    by blast
  from C7_flag_monotonic[where s = "start bob_dials net_up [] [] []" and xs = "[A_main]"
      and ys = "[A_main, A_recv]"]
  have c: "exec ([A_main] @ [A_sigint, A_sigint] @ [A_main, A_recv]) (start bob_dials net_up [] [] []) =
   exec ([A_main] @ [A_sigint] @ [A_main, A_recv]) (start bob_dials net_up [] [] [])"
    by blast
  from a b c show ?thesis by blast
qed

text \<open>
  C8 (as amended).  In every reachable state: a \<^verbatim>\<open>recv\<close> that fails with \<^verbatim>\<open>EINTR\<close> prints
  nothing and stores nothing to the flag, and takes the inbound relay back to the head
  of its loop, where it calls \<^verbatim>\<open>recv\<close> again if the flag is still set and returns if it
  is not; a \<^verbatim>\<open>send\<close> that fails with \<^verbatim>\<open>EINTR\<close> prints nothing, stores nothing to the flag and
  leaves the relay where it was, so that the next \<^verbatim>\<open>send\<close> offers the same bytes, which are
  exactly the bytes of the message not yet on the wire.
\<close>

theorem C8_eintr_retry:
  assumes "s = exec sched (start iv env rx0 tx0 cin0)"
  shows "(recv_pc s = R_recv \<longrightarrow> sys_recv (conn s) (BUF - 1) (rxq s) = Some ((n, d, EINTR), q) \<longrightarrow> n < 0 \<longrightarrow>
            move A_recv s = s\<lparr>rxq := q, trace := trace s @ [Sys_recv (BUF - 1) n d EINTR],
                              recv_pc := R_head\<rparr>) \<and>
         (\<forall>t. recv_pc t = R_head \<longrightarrow>
            move A_recv t = t\<lparr>recv_pc := (if running t then R_recv else R_done)\<rparr>) \<and>
         (send_pc s = S_sending out sent to_send \<longrightarrow>
            take to_send (drop sent out) = drop sent out \<and>
            (\<exists>before. wire s = before @ take sent out) \<and>
            (sys_send (conn s) (drop sent out) (txq s) = Some ((m, EINTR), q') \<longrightarrow> m < 0 \<longrightarrow>
               move A_send s = s\<lparr>txq := q', trace := trace s @ [Sys_send (drop sent out) m EINTR]\<rparr>))"
proof -
  have r1: "recv_pc s = R_recv \<longrightarrow> sys_recv (conn s) (BUF - 1) (rxq s) = Some ((n, d, EINTR), q) \<longrightarrow> n < 0 \<longrightarrow>
            move A_recv s = s\<lparr>rxq := q, trace := trace s @ [Sys_recv (BUF - 1) n d EINTR],
                              recv_pc := R_head\<rparr>"
    by (simp add: move_def step_def recv_step_def recv_handle_def emit_def)
  have r2: "\<forall>t. recv_pc t = R_head \<longrightarrow>
            move A_recv t = t\<lparr>recv_pc := (if running t then R_recv else R_done)\<rparr>"
    by (simp add: move_def step_def recv_step_def)
  have w: "send_pc s = S_sending out sent to_send \<longrightarrow>
            take to_send (drop sent out) = drop sent out \<and>
            (\<exists>before. wire s = before @ take sent out) \<and>
            (sys_send (conn s) (drop sent out) (txq s) = Some ((m, EINTR), q') \<longrightarrow> m < 0 \<longrightarrow>
               move A_send s = s\<lparr>txq := q', trace := trace s @ [Sys_send (drop sent out) m EINTR]\<rparr>)"
  proof
    assume pc: "send_pc s = S_sending out sent to_send"
    have inv: "send_inv s" unfolding assms by (rule send_inv_reach)
    with pc have sum: "sent + to_send = length out" and pos: "0 < to_send"
      and w: "wire s = concat (map (wire_message (username s)) (butlast (lines_read (trace s)))) @ take sent out"
      by (simp_all add: send_inv_def)
    from sum have off: "take to_send (drop sent out) = drop sent out" by simp
    have "move A_send s = s\<lparr>txq := q', trace := trace s @ [Sys_send (drop sent out) m EINTR]\<rparr>"
      if "sys_send (conn s) (drop sent out) (txq s) = Some ((m, EINTR), q')" "m < 0"
    proof -
      have "s\<lparr>txq := q', trace := trace s @ [Sys_send (drop sent out) m EINTR],
               send_pc := S_sending out sent to_send\<rparr> =
            s\<lparr>txq := q', trace := trace s @ [Sys_send (drop sent out) m EINTR]\<rparr>"
        using pc by (cases s) simp
      with that pos show ?thesis
        by (simp add: move_def step_def send_step_def pc off send_handle_def send_while_def emit_def
              Let_def)
    qed
    with off w show "take to_send (drop sent out) = drop sent out \<and>
            (\<exists>before. wire s = before @ take sent out) \<and>
            (sys_send (conn s) (drop sent out) (txq s) = Some ((m, EINTR), q') \<longrightarrow> m < 0 \<longrightarrow>
               move A_send s = s\<lparr>txq := q', trace := trace s @ [Sys_send (drop sent out) m EINTR]\<rparr>)"
      by blast
  qed
  from r1 r2 w show ?thesis by blast
qed

text \<open>C8, witness: both relays interrupted; the read is retried and delivers the chunk,
  the write is retried from byte 3 and completes the message.\<close>

theorem C8_eintr_retry_witness:
  "recv_pc both_interrupted = R_recv \<and>
   send_pc both_interrupted = S_sending (''bob: yo'' @ [newline]) 3 5 \<and>
   wire both_interrupted = ''bob'' \<and>
   move A_recv both_interrupted =
     both_interrupted\<lparr>rxq := [Rx_data ''hi''],
                      trace := trace both_interrupted @ [Sys_recv (BUF - 1) (- 1) [] EINTR],
                      recv_pc := R_head\<rparr> \<and>
   move A_send both_interrupted =
     both_interrupted\<lparr>txq := [Tx_accept 100],
                      trace := trace both_interrupted
                               @ [Sys_send (drop 3 (''bob: yo'' @ [newline])) (- 1) EINTR]\<rparr> \<and>
   chunks_received (trace (exec [A_recv, A_recv, A_recv] both_interrupted)) = [''hi''] \<and>
   wire (exec [A_send, A_send] both_interrupted) = ''bob: yo'' @ [newline]"
proof -
  have f: "recv_pc both_interrupted = R_recv" "conn both_interrupted = Fd_open"
    "rxq both_interrupted = [Rx_err EINTR, Rx_data ''hi'']"
    "txq both_interrupted = [Tx_err EINTR, Tx_accept 100]"
    "send_pc both_interrupted = S_sending (''bob: yo'' @ [newline]) 3 5"
    "wire both_interrupted = ''bob''"
    by (simp_all add: both_interrupted_def run_defs)
  have g: "chunks_received (trace (exec [A_recv, A_recv, A_recv] both_interrupted)) = [''hi'']"
    "wire (exec [A_send, A_send] both_interrupted) = ''bob: yo'' @ [newline]"
    by (simp_all add: both_interrupted_def run_defs chunks_received_def)
  have a: "sys_recv (conn both_interrupted) (BUF - 1) (rxq both_interrupted) =
             Some ((- 1, [], EINTR), [Rx_data ''hi''])"
    by (simp add: f sys_recv_def)
  have b: "sys_send (conn both_interrupted) (drop 3 (''bob: yo'' @ [newline])) (txq both_interrupted) =
             Some ((- 1, EINTR), [Tx_accept 100])"
    by (simp add: f sys_send_def)
  note t = C8_eintr_retry[OF both_interrupted_def, where n = "- 1" and d = "[]"
      and q = "[Rx_data ''hi'']" and out = "''bob: yo'' @ [newline]" and sent = 3 and to_send = 5
      and m = "- 1" and q' = "[Tx_accept 100]"]
  from t f(1) a have r: "move A_recv both_interrupted =
     both_interrupted\<lparr>rxq := [Rx_data ''hi''],
                      trace := trace both_interrupted @ [Sys_recv (BUF - 1) (- 1) [] EINTR],
                      recv_pc := R_head\<rparr>"
    by simp
  from t f(5) b have w: "move A_send both_interrupted =
     both_interrupted\<lparr>txq := [Tx_accept 100],
                      trace := trace both_interrupted
                               @ [Sys_send (drop 3 (''bob: yo'' @ [newline])) (- 1) EINTR]\<rparr>"
    by simp
  from f g r w show ?thesis by simp
qed

text \<open>C8 as stated fails for reads: SIGINT clears the flag and interrupts \<^verbatim>\<open>recv\<close>; the
  relay returns without calling \<^verbatim>\<open>recv\<close> again, the chunk still queued.\<close>

theorem C8_read_not_retried_counterexample:
  "recv_calls (trace sigint_during_recv) = [Sys_recv 1023 (- 1) [] EINTR] \<and>
   rxq sigint_during_recv = [Rx_data ''hi''] \<and>
   recv_pc sigint_during_recv = R_done \<and>
   chunks_received (trace sigint_during_recv) = []"
  by (simp add: sigint_during_recv_def run_defs recv_calls_def chunks_received_def)

text \<open>
  C9.  Every establishment failure the specification lists makes \<^verbatim>\<open>main\<close> return 1, at once
  and whatever the schedule.  Whenever \<^verbatim>\<open>main\<close> has returned, its code is 0 or 1; it is 1
  exactly when the establishment phase failed and 0 exactly when a session was
  established, and a session that ended with 0 has had its flag cleared, both relays
  returned and its connection closed once, before the two joins.
\<close>

theorem C9_exit_code:
  assumes "s = exec sched (start iv env rx0 tx0 cin0)"
  shows "(establishment_failure iv env \<longrightarrow> main_pc s = M_exited 1) \<and>
         (\<forall>c. main_pc s = M_exited c \<longrightarrow>
            (c = 0 \<or> c = 1) \<and>
            (c = 1 \<longleftrightarrow> (\<exists>es. main_establish iv env = (Inl 1, es))) \<and>
            (c = 0 \<longleftrightarrow> (\<exists>u es. main_establish iv env = (Inr u, es))) \<and>
            (c = 0 \<longrightarrow> \<not> running s \<and> send_pc s = S_done \<and> recv_pc s = R_done \<and>
                        conn s = Fd_closed \<and>
                        close_joins (trace s) = [Sys_close, Joined A_send, Joined A_recv]))"
proof (cases "fst (main_establish iv env)")
  case (Inl c0)
  then have c0: "c0 = 1" by (rule establish_code)
  have "exec sched (start iv env rx0 tx0 cin0) = start iv env rx0 tx0 cin0"
    by (rule exec_exited[where c = 1]) (simp_all add: start_fields Inl c0)
  then have pc: "main_pc s = M_exited 1"
    by (simp add: assms start_fields Inl c0)
  from Inl c0 have e: "\<exists>es. main_establish iv env = (Inl 1, es)" "\<not> (\<exists>u es. main_establish iv env = (Inr u, es))"
    by (cases "main_establish iv env"; simp)+
  from pc e show ?thesis by simp
next
  case (Inr u)
  then have nf: "\<not> establishment_failure iv env"
    using failure_establish[of iv env] by auto
  have "session_inv s"
    unfolding assms by (rule session_inv_exec[OF session_inv_start[OF Inr]])
  then have ex: "\<And>c. main_pc s = M_exited c \<Longrightarrow> c = 0 \<and> \<not> running s \<and> send_pc s = S_done \<and>
      recv_pc s = R_done \<and> conn s = Fd_closed \<and>
      close_joins (trace s) = [Sys_close, Joined A_send, Joined A_recv]"
    by (simp add: session_inv_def)
  from Inr have e: "\<not> (\<exists>es. main_establish iv env = (Inl 1, es))" "\<exists>u es. main_establish iv env = (Inr u, es)"
    by (cases "main_establish iv env"; simp)+
  from nf ex e show ?thesis by auto
qed

text \<open>C9, witness: a listener without a port exits with 1; Bob's session, ended by the
  peer's close and the end of input, exits with 0.\<close>

theorem C9_exit_code_witness:
  "establishment_failure \<lparr>prog = ''connector'', args = [''--listen'']\<rparr> net_up \<and>
   main_pc (exec [A_main, A_recv, A_send]
              (start \<lparr>prog = ''connector'', args = [''--listen'']\<rparr> net_up [] [] [])) = M_exited 1 \<and>
   main_pc (exec [A_main, A_main, A_recv, A_send, A_recv, A_send, A_main, A_main, A_main, A_main, A_main]
              (start bob_dials net_up [Rx_eof] [] [Eof])) = M_exited 0 \<and>
   (\<exists>u es. main_establish bob_dials net_up = (Inr u, es))"
proof -
  let ?bad = "\<lparr>prog = ''connector'', args = [''--listen'']\<rparr>"
  let ?t = "exec [A_main, A_main, A_recv, A_send, A_recv, A_send, A_main, A_main, A_main, A_main, A_main]
              (start bob_dials net_up [Rx_eof] [] [Eof])"
  have f: "establishment_failure ?bad net_up"
    by (simp add: establishment_failure_def)
  with C9_exit_code[OF refl, where sched = "[A_main, A_recv, A_send]" and iv = ?bad and env = net_up
      and ?rx0.0 = "[]" and ?tx0.0 = "[]" and ?cin0.0 = "[]"]
  have a: "main_pc (exec [A_main, A_recv, A_send] (start ?bad net_up [] [] [])) = M_exited 1"
    by blast
  have pc: "main_pc ?t = M_exited 0"
    by (simp add: run_defs)
  with C9_exit_code[OF refl, where sched = "[A_main, A_main, A_recv, A_send, A_recv, A_send, A_main, A_main, A_main, A_main, A_main]"
      and iv = bob_dials and env = net_up and ?rx0.0 = "[Rx_eof]" and ?tx0.0 = "[]" and ?cin0.0 = "[Eof]"]
  have b: "\<exists>u es. main_establish bob_dials net_up = (Inr u, es)"
    by blast
  from f a pc b show ?thesis by simp
qed

text \<open>
  C10.  The inbound relay prints each chunk as a NUL-terminated C string.  If a received
  chunk is \<open>a @ NUL # b\<close> with no NUL in \<open>a\<close>, the text printed for it is \<^verbatim>\<open>"[remote] "\<close> and
  \<open>a\<close> only (the bytes \<open>b\<close> after the first NUL are dropped), while a newline is appended
  according to the last byte received (the last byte of \<open>NUL # b\<close>), not the last byte
  printed.  The other chunks are printed by the same rule.
\<close>

theorem C10_embedded_nul:
  assumes "chunks_received (trace (exec sched (start iv env rx0 tx0 cin0))) = cs1 @ [a @ NUL # b] @ cs2"
    and "NUL \<notin> set a"
  shows "cout_text A_recv (trace (exec sched (start iv env rx0 tx0 cin0))) =
           concat (map (\<lambda>d. ''[remote] '' @ c_str d @ (if last d \<noteq> newline then [newline] else [])) cs1)
           @ ''[remote] '' @ a @ (if last (NUL # b) \<noteq> newline then [newline] else [])
           @ concat (map (\<lambda>d. ''[remote] '' @ c_str d @ (if last d \<noteq> newline then [newline] else [])) cs2)"
proof -
  have "\<And>x. x \<in> set a \<Longrightarrow> x \<noteq> NUL"
    using assms(2) by auto
  then have "takeWhile (\<lambda>c. c \<noteq> NUL) (a @ NUL # b) = a @ takeWhile (\<lambda>c. c \<noteq> NUL) (NUL # b)"
    by (rule takeWhile_append2)
  then have tw: "takeWhile (\<lambda>c. c \<noteq> NUL) (a @ NUL # b) = a"
    by simp
  show ?thesis
    using recv_inv_reach[of sched iv env rx0 tx0 cin0]
    by (simp add: recv_inv_def assms(1) tw c_str_def)
qed

text \<open>C10, witness: the chunk \<^verbatim>\<open>ab\0cd\n\<close> is printed as \<^verbatim>\<open>[remote] ab\<close>, with no newline,
  because the last byte received is a newline.\<close>

theorem C10_embedded_nul_witness:
  "cout_text A_recv
     (trace (exec [A_main, A_main, A_recv, A_recv]
               (start bob_dials net_up [Rx_data (''ab'' @ NUL # ''cd'' @ [newline])] [] []))) =
     ''[remote] ab''"
proof -
  have "chunks_received
     (trace (exec [A_main, A_main, A_recv, A_recv]
               (start bob_dials net_up [Rx_data (''ab'' @ NUL # ''cd'' @ [newline])] [] []))) =
     [] @ [''ab'' @ NUL # (''cd'' @ [newline])] @ []"
    by (simp add: run_defs chunks_received_def)
  from C10_embedded_nul[OF this] show ?thesis by simp
qed

section \<open>Further properties\<close>

text \<open>
  X1.  In every execution the connection is closed at most once, and the close comes
  before both joins: of the close and the two joins, the trace holds nothing, or the
  close alone, or the close and then the join of the outbound relay, or these and then
  the join of the inbound relay.
\<close>

theorem X1_close_once_before_joins:
  "close_joins (trace (exec sched (start iv env rx0 tx0 cin0))) \<in>
     {[], [Sys_close], [Sys_close, Joined A_send], [Sys_close, Joined A_send, Joined A_recv]}"
proof (cases "fst (main_establish iv env)")
  case (Inl c)
  have "exec sched (start iv env rx0 tx0 cin0) = start iv env rx0 tx0 cin0"
    by (rule exec_exited[where c = c]) (simp_all add: start_fields Inl)
  then show ?thesis
    by (simp add: start_fields close_joins_establish)
next
  case (Inr u)
  have "session_inv (exec sched (start iv env rx0 tx0 cin0))"
    by (rule session_inv_exec[OF session_inv_start[OF Inr]])
  then show ?thesis
    by (cases "main_pc (exec sched (start iv env rx0 tx0 cin0))") (simp_all add: session_inv_def)
qed

text \<open>
  X2.  The display name of an established session is the third argument when there is
  one, and otherwise \<^verbatim>\<open>"server"\<close> for a listener and \<^verbatim>\<open>"host"\<close> for a dialer.
\<close>

theorem X2_display_name:
  assumes "fst (main_establish iv env) = Inr u"
  shows "\<exists>a1 port rest. args iv = a1 # port # rest \<and>
           u = (case rest of
                  name # _ \<Rightarrow> name
                | [] \<Rightarrow> (if a1 = ''--listen'' then ''server'' else ''host''))"
proof (cases "args iv")
  case Nil
  with assms show ?thesis by (simp add: main_establish_def)
next
  case (Cons a1 rest)
  show ?thesis
  proof (cases rest)
    case Nil
    with Cons assms show ?thesis
      by (simp add: main_establish_def main_listen_def main_dial_def split: if_splits)
  next
    case (Cons port rest2)
    with \<open>args iv = a1 # rest\<close> assms show ?thesis
      by (cases rest2)
         (auto simp: main_establish_def main_listen_def main_dial_def Let_def split: if_splits)
  qed
qed

text \<open>X2, witness: a listener and a dialer without a name, and Bob.\<close>

theorem X2_display_name_witness:
  "fst (main_establish server_listens net_up) = Inr ''server'' \<and>
   fst (main_establish bob_dials net_up) = Inr ''bob'' \<and>
   fst (main_establish \<lparr>prog = ''connector'', args = [''example.org'', ''9001'']\<rparr> net_up) = Inr ''host''"
proof -
  have a: "fst (main_establish server_listens net_up) = Inr ''server''"
    "fst (main_establish bob_dials net_up) = Inr ''bob''"
    "fst (main_establish \<lparr>prog = ''connector'', args = [''example.org'', ''9001'']\<rparr> net_up) = Inr ''host''"
    by (simp_all add: run_defs)
  from X2_display_name[OF a(3)] a show ?thesis by simp
qed

end
